theory Spec2Isabelle
  imports Main "HOL-Library.Word" "HOL-Library.Multiset" "HOL-Library.Code_Target_Nat"
begin

unbundle bit_operations_syntax

section \<open>The counting kernel (compute.wgsl)\<close>

text \<open>
  The kernel works on three storage buffers: \<open>adj_offsets\<close> and \<open>adj_data\<close>, both
  \<open>array<u32>\<close> and read-only, and the counter \<open>triangle_count\<close>, an \<open>atomic<u32>\<close>.
  A \<open>u32\<close> is a 32-bit word: \<open>+\<close> wraps, \<open><\<close> is the unsigned order.

  WGSL gives an out-of-bounds array read no definite value. The model makes such a read
  the error \<open>OutOfBounds\<close>, so a kernel result \<open>Inr c\<close> says that every read was in
  bounds. The other errors are those of the host program (JavaScript exceptions, and
  \<open>Unsupported\<close> for a number token outside the decimal fragment that is modelled).
\<close>

type_synonym u32 = "32 word"

datatype error = OutOfBounds | RangeError | TypeError | Unsupported

definition load :: "u32 list \<Rightarrow> u32 \<Rightarrow> error + u32" where
  "load buf i = (if unat i < length buf then Inr (buf ! unat i) else Inl OutOfBounds)"

definition arrayLength :: "u32 list \<Rightarrow> u32" where
  "arrayLength buf = of_nat (length buf)"

text \<open>
  The \<open>while\<close> loop of \<open>count_intersection\<close>; the loop variables \<open>count\<close> (here \<open>cnt\<close>),
  \<open>i\<close> and \<open>j\<close> are the last three arguments.
\<close>

function count_intersection_loop ::
  "u32 list \<Rightarrow> u32 \<Rightarrow> u32 \<Rightarrow> u32 \<Rightarrow> u32 \<Rightarrow> u32 \<Rightarrow> error + u32" where
  "count_intersection_loop adj_data u_end v_end cnt i j =
     (if i < u_end \<and> j < v_end then
        (case load adj_data i of
           Inl e \<Rightarrow> Inl e
         | Inr neighbor_u \<Rightarrow>
            (case load adj_data j of
               Inl e \<Rightarrow> Inl e
             | Inr neighbor_v \<Rightarrow>
                if neighbor_u = neighbor_v then
                  count_intersection_loop adj_data u_end v_end (cnt + 1) (i + 1) (j + 1)
                else if neighbor_u < neighbor_v then
                  count_intersection_loop adj_data u_end v_end cnt (i + 1) j
                else
                  count_intersection_loop adj_data u_end v_end cnt i (j + 1)))
      else Inr cnt)"
  by pat_completeness auto

termination
proof (relation "measure (\<lambda>(adj_data, u_end, v_end, cnt, i, j).
                   (unat u_end - unat i) + (unat v_end - unat j))")
  show "wf (measure (\<lambda>(adj_data, u_end, v_end, cnt, i, j).
                   (unat u_end - unat i) + (unat v_end - unat j)))"
    by simp
next
  fix adj_data :: "u32 list" and u_end v_end cnt i j :: u32
  assume "i < u_end \<and> j < v_end"
  then show "((adj_data, u_end, v_end, cnt + 1, i + 1, j + 1), (adj_data, u_end, v_end, cnt, i, j))
      \<in> measure (\<lambda>(adj_data, u_end, v_end, cnt, i, j).
                   (unat u_end - unat i) + (unat v_end - unat j))"
    using unsigned_less [of u_end, where 'a = nat] unsigned_less [of v_end, where 'a = nat]
    by (auto simp: word_less_nat_alt unat_word_ariths)
next
  fix adj_data :: "u32 list" and u_end v_end cnt i j :: u32
  assume "i < u_end \<and> j < v_end"
  then show "((adj_data, u_end, v_end, cnt, i + 1, j), (adj_data, u_end, v_end, cnt, i, j))
      \<in> measure (\<lambda>(adj_data, u_end, v_end, cnt, i, j).
                   (unat u_end - unat i) + (unat v_end - unat j))"
    using unsigned_less [of u_end, where 'a = nat]
    by (auto simp: word_less_nat_alt unat_word_ariths)
next
  fix adj_data :: "u32 list" and u_end v_end cnt i j :: u32
  assume "i < u_end \<and> j < v_end"
  then show "((adj_data, u_end, v_end, cnt, i, j + 1), (adj_data, u_end, v_end, cnt, i, j))
      \<in> measure (\<lambda>(adj_data, u_end, v_end, cnt, i, j).
                   (unat u_end - unat i) + (unat v_end - unat j))"
    using unsigned_less [of v_end, where 'a = nat]
    by (auto simp: word_less_nat_alt unat_word_ariths)
qed

definition count_intersection ::
  "u32 list \<Rightarrow> u32 \<Rightarrow> u32 \<Rightarrow> u32 \<Rightarrow> u32 \<Rightarrow> error + u32" where
  "count_intersection adj_data u_start u_end v_start v_end =
     count_intersection_loop adj_data u_end v_end 0 u_start v_start"

text \<open>
  The \<open>for\<close> loop of \<open>main\<close> over the row of \<open>u\<close>. The only state an invocation changes is
  the counter, which is passed in and returned; \<open>atomicAdd\<close> is the wrapping \<open>+\<close> of
  \<open>u32\<close>.
\<close>

function main_loop ::
  "u32 list \<Rightarrow> u32 list \<Rightarrow> u32 \<Rightarrow> u32 \<Rightarrow> u32 \<Rightarrow> u32 \<Rightarrow> error + u32" where
  "main_loop adj_offsets adj_data u_adj_start u_adj_end triangle_count i =
     (if i < u_adj_end then
        (case load adj_data i of
           Inl e \<Rightarrow> Inl e
         | Inr v \<Rightarrow>
            (case load adj_offsets v of
               Inl e \<Rightarrow> Inl e
             | Inr v_adj_start \<Rightarrow>
                (case load adj_offsets (v + 1) of
                   Inl e \<Rightarrow> Inl e
                 | Inr v_adj_end \<Rightarrow>
                    (case count_intersection adj_data u_adj_start u_adj_end
                            v_adj_start v_adj_end of
                       Inl e \<Rightarrow> Inl e
                     | Inr common_neighbors \<Rightarrow>
                        main_loop adj_offsets adj_data u_adj_start u_adj_end
                          (if common_neighbors > 0 then triangle_count + common_neighbors
                           else triangle_count)
                          (i + 1)))))
      else Inr triangle_count)"
  by pat_completeness auto

termination
proof (relation "measure (\<lambda>(adj_offsets, adj_data, u_adj_start, u_adj_end, triangle_count, i).
                   unat u_adj_end - unat i)")
  show "wf (measure (\<lambda>(adj_offsets, adj_data, u_adj_start, u_adj_end, triangle_count, i).
                   unat u_adj_end - unat i))"
    by simp
next
  fix adj_offsets adj_data :: "u32 list" and u_adj_start u_adj_end triangle_count i :: u32
  assume "i < u_adj_end"
  then show "((adj_offsets, adj_data, u_adj_start, u_adj_end,
        (if 0 < common_neighbors then triangle_count + common_neighbors else triangle_count),
        i + 1),
       (adj_offsets, adj_data, u_adj_start, u_adj_end, triangle_count, i))
      \<in> measure (\<lambda>(adj_offsets, adj_data, u_adj_start, u_adj_end, triangle_count, i).
                   unat u_adj_end - unat i)" for common_neighbors :: u32
    using unsigned_less [of u_adj_end, where 'a = nat]
    by (simp add: word_less_nat_alt unat_word_ariths)
qed

text \<open>
  The entry point, for the invocation whose \<open>global_invocation_id.x\<close> is \<open>global_id\<close>.
\<close>

definition main :: "u32 list \<Rightarrow> u32 list \<Rightarrow> u32 \<Rightarrow> u32 \<Rightarrow> error + u32" where
  "main adj_offsets adj_data triangle_count global_id =
     (let u = global_id;
          node_count = arrayLength adj_offsets - 1
      in if u \<ge> node_count then Inr triangle_count
         else
           (case load adj_offsets u of
              Inl e \<Rightarrow> Inl e
            | Inr u_adj_start \<Rightarrow>
               (case load adj_offsets (u + 1) of
                  Inl e \<Rightarrow> Inl e
                | Inr u_adj_end \<Rightarrow>
                   main_loop adj_offsets adj_data u_adj_start u_adj_end
                     triangle_count u_adj_start)))"

section \<open>The host program (triangle_counter.js)\<close>

subsection \<open>JavaScript values and line parsing\<close>

text \<open>
  The values a parsed line can hold: a number, \<open>NaN\<close>, or \<open>undefined\<close> (a missing array
  element). The numbers of the model are the non-negative integers below \<open>2^53\<close>, which a
  JavaScript number holds exactly.
\<close>

datatype jsval = Num nat | NaN | Undefined

text \<open>
  A line is the text \<open>decoder.decode(lineBytes)\<close> of one chunk of the delimiter stream; the
  model covers ASCII text, where characters and bytes coincide. \<open>isWhiteSpace\<close> is the
  class \<open>\s\<close> on ASCII: tab, line feed, vertical tab, form feed, carriage return, space.
\<close>

definition isWhiteSpace :: "char \<Rightarrow> bool" where
  "isWhiteSpace c \<longleftrightarrow> of_char c \<in> {9, 10, 11, 12, 13, 32 :: nat}"

definition trim :: "string \<Rightarrow> string" where
  "trim s = rev (dropWhile isWhiteSpace (rev (dropWhile isWhiteSpace s)))"

text \<open>
  \<open>s.split(/\s+/)\<close>: \<open>cur\<close> is the token being read, \<open>insep\<close> says whether the previous
  character belonged to a separator. The empty string splits into one empty token.
\<close>

fun split_from :: "string \<Rightarrow> bool \<Rightarrow> string \<Rightarrow> string list" where
  "split_from cur insep [] = [cur]"
| "split_from cur insep (c # cs) =
     (if isWhiteSpace c then
        (if insep then split_from cur True cs else cur # split_from [] True cs)
      else split_from (cur @ [c]) False cs)"

definition split_ws :: "string \<Rightarrow> string list" where
  "split_ws s = split_from [] False s"

definition isDigit :: "char \<Rightarrow> bool" where
  "isDigit c \<longleftrightarrow> 48 \<le> (of_char c :: nat) \<and> (of_char c :: nat) \<le> 57"

definition decimalValue :: "string \<Rightarrow> nat" where
  "decimalValue s = foldl (\<lambda>a c. 10 * a + (of_char c - 48)) 0 s"

text \<open>
  \<open>Number(s)\<close> on a token: the empty string is \<open>0\<close>, a string of decimal digits is its
  value. Every other token (a sign, a fraction, an exponent, a hexadecimal literal, text,
  a value from \<open>2^53\<close> on) is outside the model: \<open>Unsupported\<close>.
\<close>

definition Number :: "string \<Rightarrow> error + jsval" where
  "Number s =
     (if s = [] then Inr (Num 0)
      else if list_all isDigit s \<and> decimalValue s < 2 ^ 53 then Inr (Num (decimalValue s))
      else Inl Unsupported)"

text \<open>
  \<open>const [node1, node2] = line.trim().split(/\s+/).map(Number)\<close>: an element the array
  does not have is \<open>undefined\<close>.
\<close>

definition element :: "string list \<Rightarrow> nat \<Rightarrow> error + jsval" where
  "element toks k = (if k < length toks then Number (toks ! k) else Inr Undefined)"

definition parse_line :: "string \<Rightarrow> error + (jsval \<times> jsval)" where
  "parse_line line =
     (let toks = split_ws (trim line)
      in case element toks 0 of
           Inl e \<Rightarrow> Inl e
         | Inr node1 \<Rightarrow>
            (case element toks 1 of
               Inl e \<Rightarrow> Inl e
             | Inr node2 \<Rightarrow> Inr (node1, node2)))"

fun Math_max :: "jsval \<Rightarrow> jsval \<Rightarrow> jsval" where
  "Math_max (Num a) (Num b) = Num (max a b)"
| "Math_max _ _ = NaN"

fun Math_min :: "jsval \<Rightarrow> jsval \<Rightarrow> jsval" where
  "Math_min (Num a) (Num b) = Num (min a b)"
| "Math_min _ _ = NaN"

text \<open>\<open>a === b\<close>: \<open>NaN\<close> is not equal to itself.\<close>

fun strict_eq :: "jsval \<Rightarrow> jsval \<Rightarrow> bool" where
  "strict_eq (Num a) (Num b) = (a = b)"
| "strict_eq Undefined Undefined = True"
| "strict_eq _ _ = False"

text \<open>\<open>BigInt(x)\<close> throws a RangeError on \<open>NaN\<close> and a TypeError on \<open>undefined\<close>.\<close>

fun BigInt :: "jsval \<Rightarrow> error + nat" where
  "BigInt (Num a) = Inr a"
| "BigInt NaN = Inl RangeError"
| "BigInt Undefined = Inl TypeError"

text \<open>A loop whose body can throw: the first error ends it.\<close>

fun for_each :: "('s \<Rightarrow> 'a \<Rightarrow> error + 's) \<Rightarrow> 'a list \<Rightarrow> 's \<Rightarrow> error + 's" where
  "for_each body [] s = Inr s"
| "for_each body (x # xs) s =
     (case body s x of Inl e \<Rightarrow> Inl e | Inr s' \<Rightarrow> for_each body xs s')"

definition startsWith :: "string \<Rightarrow> string \<Rightarrow> bool" where
  "startsWith s p \<longleftrightarrow> take (length p) s = p"

subsection \<open>Pass 1: count edges and find maxNodeId\<close>

text \<open>
  The state of the first loop is \<open>(officialEdgeCount, uniqueNodeIds, maxNodeId,
  validEdgeCount)\<close>. \<open>uniqueNodeIds\<close> is a \<open>Set\<close>: a list without repetition, whose
  \<open>size\<close> is its length.
\<close>

type_synonym pass1_state = "nat \<times> jsval list \<times> nat \<times> nat"

definition pass1_line :: "pass1_state \<Rightarrow> string \<Rightarrow> error + pass1_state" where
  "pass1_line st lineBytes =
     (case st of (officialEdgeCount, uniqueNodeIds, maxNodeId, validEdgeCount) \<Rightarrow>
        if length lineBytes = 0 then Inr st
        else if startsWith lineBytes ''#'' then Inr st
        else
          (case parse_line lineBytes of
             Inl e \<Rightarrow> Inl e
           | Inr (node1, node2) \<Rightarrow>
               Inr (officialEdgeCount + 1,
                    List.insert node2 (List.insert node1 uniqueNodeIds),
                    (case Math_max node1 node2 of
                       Num maxInPair \<Rightarrow> if maxInPair > maxNodeId then maxInPair else maxNodeId
                     | _ \<Rightarrow> maxNodeId),
                    (if \<not> strict_eq node1 node2 then validEdgeCount + 1
                     else validEdgeCount))))"

definition pass1 :: "string list \<Rightarrow> error + pass1_state" where
  "pass1 lines = for_each pass1_line lines (0, [], 0, 0)"

subsection \<open>Pass 2: the packed edge array\<close>

text \<open>
  A packed edge is an element of a \<open>BigUint64Array\<close>: a natural number below \<open>2^64\<close>, the
  store keeping the low 64 bits (\<open>take_bit 64\<close>). \<open><<\<close> is \<open>push_bit\<close>, \<open>>>\<close> is
  \<open>drop_bit\<close>. A store at an index outside a typed array is ignored, as \<open>xs[i := v]\<close> is.
\<close>

definition pack :: "nat \<Rightarrow> nat \<Rightarrow> nat" where
  "pack u v = take_bit 64 (push_bit 32 u OR v)"

definition pass2_line :: "nat list \<times> nat \<Rightarrow> string \<Rightarrow> error + (nat list \<times> nat)" where
  "pass2_line st lineBytes =
     (case st of (allPackedEdges, edgeIndex) \<Rightarrow>
        if length lineBytes = 0 then Inr st
        else if startsWith lineBytes ''#'' then Inr st
        else
          (case parse_line lineBytes of
             Inl e \<Rightarrow> Inl e
           | Inr (node1, node2) \<Rightarrow>
               if strict_eq node1 node2 then Inr st
               else
                 (case BigInt (Math_min node1 node2) of
                    Inl e \<Rightarrow> Inl e
                  | Inr u \<Rightarrow>
                     (case BigInt (Math_max node1 node2) of
                        Inl e \<Rightarrow> Inl e
                      | Inr v \<Rightarrow>
                         Inr (allPackedEdges[edgeIndex := pack u v], edgeIndex + 1)))))"

definition pass2 :: "string list \<Rightarrow> nat \<Rightarrow> error + (nat list \<times> nat)" where
  "pass2 lines validEdgeCount = for_each pass2_line lines (replicate validEdgeCount 0, 0)"

subsection \<open>Stage 3: deduplicate and build the final structures\<close>

definition count_unique :: "nat list \<Rightarrow> nat" where
  "count_unique allPackedEdges =
     (if length allPackedEdges > 0 then
        foldl (\<lambda>uniqueEdgeCount i.
                 if allPackedEdges ! i \<noteq> allPackedEdges ! (i - 1) then uniqueEdgeCount + 1
                 else uniqueEdgeCount)
          1 [1 ..< length allPackedEdges]
      else 0)"

definition fill_unique :: "nat list \<Rightarrow> nat \<Rightarrow> nat list" where
  "fill_unique allPackedEdges uniqueEdgeCount =
     (let uniquePackedEdges = replicate uniqueEdgeCount 0
      in if length allPackedEdges > 0 then
           fst (foldl (\<lambda>(uniquePackedEdges, cnt) i.
                         if allPackedEdges ! i \<noteq> allPackedEdges ! (i - 1)
                         then (uniquePackedEdges[cnt := allPackedEdges ! i], cnt + 1)
                         else (uniquePackedEdges, cnt))
                  (uniquePackedEdges[0 := allPackedEdges ! 0], 1)
                  [1 ..< length allPackedEdges])
         else uniquePackedEdges)"

text \<open>
  \<open>degrees\<close> is a \<open>Uint32Array\<close>: \<open>++\<close> wraps at \<open>2^32\<close>, and outside the array it changes
  nothing.
\<close>

definition increment :: "u32 list \<Rightarrow> nat \<Rightarrow> u32 list" where
  "increment degrees i = degrees[i := degrees ! i + 1]"

definition high_half :: "nat \<Rightarrow> nat" where
  "high_half packed = drop_bit 32 packed"

definition low_half :: "nat \<Rightarrow> nat" where
  "low_half packed = packed AND 0xFFFFFFFF"

definition build_degrees :: "nat list \<Rightarrow> nat \<Rightarrow> u32 list" where
  "build_degrees uniquePackedEdges nodeCountForAllocation =
     foldl (\<lambda>degrees i.
              let packed = uniquePackedEdges ! i
              in increment (increment degrees (high_half packed)) (low_half packed))
       (replicate nodeCountForAllocation 0) [0 ..< length uniquePackedEdges]"

text \<open>
  Reading a typed array outside its bounds gives \<open>undefined\<close> (\<open>None\<close>); \<open><\<close> with
  \<open>undefined\<close> is false, \<open>===\<close> of two \<open>undefined\<close> is true. \<open>orientedAdj[u].push(v)\<close> on a
  row that does not exist is a TypeError.
\<close>

definition degree_at :: "u32 list \<Rightarrow> nat \<Rightarrow> u32 option" where
  "degree_at degrees i = (if i < length degrees then Some (degrees ! i) else None)"

fun js_less :: "u32 option \<Rightarrow> u32 option \<Rightarrow> bool" where
  "js_less (Some a) (Some b) = (a < b)"
| "js_less _ _ = False"

definition push_to :: "nat list list \<Rightarrow> nat \<Rightarrow> nat \<Rightarrow> error + nat list list" where
  "push_to orientedAdj u v =
     (if u < length orientedAdj then Inr (orientedAdj[u := orientedAdj ! u @ [v]])
      else Inl TypeError)"

definition orient_edge :: "u32 list \<Rightarrow> nat list list \<Rightarrow> nat \<Rightarrow> error + nat list list" where
  "orient_edge degrees orientedAdj packed =
     (let u = high_half packed;
          v = low_half packed
      in if js_less (degree_at degrees u) (degree_at degrees v)
            \<or> (degree_at degrees u = degree_at degrees v \<and> u < v)
         then push_to orientedAdj u v
         else push_to orientedAdj v u)"

definition build_oriented ::
  "u32 list \<Rightarrow> nat list \<Rightarrow> nat \<Rightarrow> error + nat list list" where
  "build_oriented degrees uniquePackedEdges nodeCountForAllocation =
     for_each (\<lambda>orientedAdj i. orient_edge degrees orientedAdj (uniquePackedEdges ! i))
       [0 ..< length uniquePackedEdges] (replicate nodeCountForAllocation [])"

text \<open>
  \<open>flat_adj_data\<close> is an ordinary array: \<open>push\<close> throws a RangeError once the array holds
  \<open>2^32 - 1\<close> elements, the largest length an array can have.
\<close>

fun push_all :: "nat list \<Rightarrow> nat list \<Rightarrow> error + nat list" where
  "push_all flat_adj_data [] = Inr flat_adj_data"
| "push_all flat_adj_data (neighbor # rest) =
     (if length flat_adj_data \<ge> 2 ^ 32 - 1 then Inl RangeError
      else push_all (flat_adj_data @ [neighbor]) rest)"

text \<open>
  The state of the last loop is \<open>(adj_offsets, flat_adj_data, currentOffset)\<close>;
  \<open>adj_offsets\<close> is a \<open>Uint32Array\<close>, so the store keeps the low 32 bits.
\<close>

definition csr_row ::
  "nat list list \<Rightarrow> u32 list \<times> nat list \<times> nat \<Rightarrow> nat \<Rightarrow> error + (u32 list \<times> nat list \<times> nat)"
  where
  "csr_row orientedAdj st i =
     (case st of (adj_offsets, flat_adj_data, currentOffset) \<Rightarrow>
        let row = sort (orientedAdj ! i)
        in case push_all flat_adj_data row of
             Inl e \<Rightarrow> Inl e
           | Inr flat_adj_data' \<Rightarrow>
               Inr (adj_offsets[i := of_nat currentOffset], flat_adj_data',
                    currentOffset + length row))"

definition build_csr :: "nat list list \<Rightarrow> nat \<Rightarrow> error + (u32 list \<times> nat list)" where
  "build_csr orientedAdj nodeCountForAllocation =
     (case for_each (csr_row orientedAdj) [0 ..< nodeCountForAllocation]
             (replicate (nodeCountForAllocation + 1) 0, [], 0) of
        Inl e \<Rightarrow> Inl e
      | Inr (adj_offsets, flat_adj_data, currentOffset) \<Rightarrow>
          Inr (adj_offsets[nodeCountForAllocation := of_nat currentOffset], flat_adj_data))"

text \<open>The object \<open>processGraph\<close> returns.\<close>

record graph =
  adj_offsets :: "u32 list"
  adj_data :: "u32 list"
  nodeCountForAllocation :: nat
  officialNodeCount :: nat
  officialEdgeCount :: nat

text \<open>
  Sorting and the two loops over adjacent elements give \<open>uniquePackedEdges\<close>; the two
  passes and this step are the ingestion of the file.
\<close>

definition dedup :: "nat list \<Rightarrow> nat list" where
  "dedup allPackedEdges =
     (let sorted = sort allPackedEdges;
          uniqueEdgeCount = count_unique sorted
      in fill_unique sorted uniqueEdgeCount)"

definition ingest :: "string list \<Rightarrow> error + (pass1_state \<times> nat list)" where
  "ingest lines =
     (case pass1 lines of
        Inl e \<Rightarrow> Inl e
      | Inr st \<Rightarrow>
         (case pass2 lines (snd (snd (snd st))) of
            Inl e \<Rightarrow> Inl e
          | Inr (allPackedEdges, edgeIndex) \<Rightarrow> Inr (st, dedup allPackedEdges)))"

text \<open>
  The degrees and the oriented adjacency lists. \<open>Array.from({ length: n }, ...)\<close> throws
  a RangeError when \<open>n\<close> exceeds \<open>2^32 - 1\<close>; allocations below that bound are taken to
  succeed.
\<close>

definition oriented :: "nat list \<Rightarrow> nat \<Rightarrow> error + nat list list" where
  "oriented uniquePackedEdges nodeCount =
     (if nodeCount > 2 ^ 32 - 1 then Inl RangeError
      else
        let degrees = build_degrees uniquePackedEdges nodeCount
        in build_oriented degrees uniquePackedEdges nodeCount)"

text \<open>
  The rest of \<open>processGraph\<close>. \<open>new Uint32Array(flat_adj_data)\<close> keeps the low 32 bits
  of each element.
\<close>

definition build_graph :: "pass1_state \<Rightarrow> nat list \<Rightarrow> error + graph" where
  "build_graph st uniquePackedEdges =
     (case st of (edgeCount, uniqueNodeIds, maxNodeId, validEdgeCount) \<Rightarrow>
        let nodeCount = maxNodeId + 1
        in case oriented uniquePackedEdges nodeCount of
             Inl e \<Rightarrow> Inl e
           | Inr orientedAdj \<Rightarrow>
              (case build_csr orientedAdj nodeCount of
                 Inl e \<Rightarrow> Inl e
               | Inr (offsets, flat_adj_data) \<Rightarrow>
                  Inr \<lparr> adj_offsets = offsets,
                        adj_data = map of_nat flat_adj_data,
                        nodeCountForAllocation = nodeCount,
                        officialNodeCount = length uniqueNodeIds,
                        officialEdgeCount = edgeCount \<rparr>))"

text \<open>
  \<open>processGraph\<close> on the chunks the delimiter stream yields for the file, which both
  passes read.
\<close>

definition processGraph :: "string list \<Rightarrow> error + graph" where
  "processGraph lines =
     (case ingest lines of
        Inl e \<Rightarrow> Inl e
      | Inr (st, uniquePackedEdges) \<Rightarrow> build_graph st uniquePackedEdges)"

subsection \<open>Dispatch and read-back\<close>

text \<open>
  \<open>Math.ceil(nodeCountForAllocation / 256)\<close> workgroups of 256 invocations each run
  \<open>main\<close>, one for each \<open>global_invocation_id.x\<close> below \<open>256 * workgroupCount\<close>, on a
  counter that starts at 0. The invocations only add to the counter, so the model runs them
  one after the other in ascending order.
\<close>

definition dispatch :: "graph \<Rightarrow> error + u32" where
  "dispatch g =
     (let workgroupCount = (nodeCountForAllocation g + 255) div 256
      in for_each (\<lambda>triangle_count global_id.
                     main (adj_offsets g) (adj_data g) triangle_count (of_nat global_id))
           [0 ..< workgroupCount * 256] 0)"

definition triangleCount :: "string list \<Rightarrow> error + nat" where
  "triangleCount lines =
     (case processGraph lines of
        Inl e \<Rightarrow> Inl e
      | Inr g \<Rightarrow> (case dispatch g of Inl e \<Rightarrow> Inl e | Inr c \<Rightarrow> Inr (unat c)))"

section \<open>Vocabulary of the properties\<close>

text \<open>The elements of a buffer in the index range \<open>[s, e)\<close>.\<close>

definition slice :: "'a list \<Rightarrow> u32 \<Rightarrow> u32 \<Rightarrow> 'a list" where
  "slice buf s e = drop (unat s) (take (unat e) buf)"

text \<open>
  The lines both passes skip: a chunk of length 0, and a line that starts with \<open>#\<close>.
\<close>

definition ignored :: "string \<Rightarrow> bool" where
  "ignored l \<longleftrightarrow> length l = 0 \<or> startsWith l ''#''"

text \<open>
  The edge record of a line: the two numbers \<open>parse_line\<close> finds on it, if it finds two.
\<close>

definition record_of :: "string \<Rightarrow> (nat \<times> nat) option" where
  "record_of l = (case parse_line l of Inr (Num a, Num b) \<Rightarrow> Some (a, b) | _ \<Rightarrow> None)"

text \<open>
  The edge records of an input, in the order of its lines.
\<close>

definition records :: "string list \<Rightarrow> (nat \<times> nat) list" where
  "records lines = List.map_filter record_of (filter (\<lambda>l. \<not> ignored l) lines)"

text \<open>
  Every line that is not skipped holds an edge record.
\<close>

definition well_formed :: "string list \<Rightarrow> bool" where
  "well_formed lines \<longleftrightarrow> list_all (\<lambda>l. ignored l \<or> record_of l \<noteq> None) lines"

text \<open>
  The canonical form \<open>(min, max)\<close> of a record.
\<close>

definition canonical :: "nat \<times> nat \<Rightarrow> nat \<times> nat" where
  "canonical r = (min (fst r) (snd r), max (fst r) (snd r))"

text \<open>
  The records that are not self-loops.
\<close>

definition proper :: "(nat \<times> nat) list \<Rightarrow> (nat \<times> nat) list" where
  "proper recs = filter (\<lambda>r. fst r \<noteq> snd r) recs"

text \<open>
  The packed edge the second pass stores for a record.
\<close>

definition pack_record :: "nat \<times> nat \<Rightarrow> nat" where
  "pack_record r = pack (min (fst r) (snd r)) (max (fst r) (snd r))"

text \<open>
  The two endpoints the later stages read from a packed edge.
\<close>

definition unpack :: "nat \<Rightarrow> nat \<times> nat" where
  "unpack packed = (high_half packed, low_half packed)"

text \<open>
  The edges of the simple undirected graph an input describes: the canonical forms of
  its records that are not self-loops.
\<close>

definition edge_set :: "string list \<Rightarrow> (nat \<times> nat) set" where
  "edge_set lines = canonical ` set (proper (records lines))"

text \<open>
  The largest identifier on the records (0 when there is none), as the first pass finds it.
\<close>

definition max_id :: "(nat \<times> nat) list \<Rightarrow> nat" where
  "max_id recs = fold (\<lambda>r m. max m (max (fst r) (snd r))) recs 0"

text \<open>
  The degree of a node: the number of edges of \<open>E\<close> it is an endpoint of.
\<close>

definition degree :: "(nat \<times> nat) set \<Rightarrow> nat \<Rightarrow> nat" where
  "degree E u = card {e \<in> E. fst e = u \<or> snd e = u}"

text \<open>
  The rank order: by degree, ties broken by identifier.
\<close>

definition rank_less :: "(nat \<times> nat) set \<Rightarrow> nat \<Rightarrow> nat \<Rightarrow> bool" where
  "rank_less E u v \<longleftrightarrow> degree E u < degree E v \<or> (degree E u = degree E v \<and> u < v)"

text \<open>
  The orientation of an edge: from its lower-ranked to its higher-ranked endpoint.
\<close>

definition arc :: "(nat \<times> nat) set \<Rightarrow> nat \<times> nat \<Rightarrow> nat \<times> nat" where
  "arc E e = (if rank_less E (fst e) (snd e) then (fst e, snd e) else (snd e, fst e))"

text \<open>
  How often \<open>i\<close> is an endpoint in a list of packed edges.
\<close>

definition incidences :: "nat list \<Rightarrow> nat \<Rightarrow> nat" where
  "incidences es i =
     length (filter (\<lambda>p. high_half p = i) es) + length (filter (\<lambda>p. low_half p = i) es)"

text \<open>
  The targets of the arcs that leave \<open>w\<close>, in the order of the list.
\<close>

definition out_list :: "(nat \<times> nat) list \<Rightarrow> nat \<Rightarrow> nat list" where
  "out_list arcs w = map snd (filter (\<lambda>a. fst a = w) arcs)"

text \<open>
  The number of entries in the first \<open>i\<close> rows.
\<close>

definition starts :: "nat list list \<Rightarrow> nat \<Rightarrow> nat" where
  "starts rows i = length (concat (take i rows))"

text \<open>
  Two nodes are adjacent when an edge joins them.
\<close>

definition adjacent :: "(nat \<times> nat) set \<Rightarrow> nat \<Rightarrow> nat \<Rightarrow> bool" where
  "adjacent E u v \<longleftrightarrow> (u, v) \<in> E \<or> (v, u) \<in> E"

text \<open>
  The oriented neighbours of \<open>u\<close>: the adjacent nodes of higher rank. Their number is the
  oriented out-degree of \<open>u\<close>.
\<close>

definition out_nbrs :: "(nat \<times> nat) set \<Rightarrow> nat \<Rightarrow> nat set" where
  "out_nbrs E u = {v. adjacent E u v \<and> rank_less E u v}"

text \<open>
  The rows the compact representation should hold for the nodes below \<open>n\<close>.
\<close>

definition spec_rows :: "(nat \<times> nat) set \<Rightarrow> nat \<Rightarrow> nat list list" where
  "spec_rows E n = map (\<lambda>u. sorted_list_of_set (out_nbrs E u)) [0 ..< n]"

text \<open>
  Row \<open>u\<close> of the compact representation of a graph: the slice of \<open>adj_data\<close> between
  two consecutive offsets.
\<close>

definition row_of :: "graph \<Rightarrow> nat \<Rightarrow> u32 list" where
  "row_of g u = slice (adj_data g) (adj_offsets g ! u) (adj_offsets g ! (u + 1))"

text \<open>
  What the invocation for node \<open>u\<close> adds to the counter: for every oriented neighbour
  \<open>v\<close> of \<open>u\<close>, the number of common oriented neighbours of \<open>u\<close> and \<open>v\<close>.
\<close>

definition found_at :: "(nat \<times> nat) set \<Rightarrow> nat \<Rightarrow> nat" where
  "found_at E u = (\<Sum>v \<in> out_nbrs E u. card (out_nbrs E u \<inter> out_nbrs E v))"

text \<open>
  The triangles (3-cliques) of the graph with edge set \<open>E\<close>: the sets of three nodes that
  are pairwise adjacent.
\<close>

definition cliques3 :: "(nat \<times> nat) set \<Rightarrow> nat set set" where
  "cliques3 E = {T. card T = 3 \<and> (\<forall>u \<in> T. \<forall>v \<in> T. u \<noteq> v \<longrightarrow> adjacent E u v)}"

text \<open>
  The entries of row \<open>u\<close> of a graph, as numbers.
\<close>

definition neighbours :: "graph \<Rightarrow> nat \<Rightarrow> nat set" where
  "neighbours g u = unat ` set (row_of g u)"

text \<open>
  What the kernel counts on a graph: an entry \<open>v\<close> of the row of \<open>u\<close> (the oriented edge
  the invocation for \<open>u\<close> processes) together with a common entry \<open>w\<close> of the rows of
  \<open>u\<close> and \<open>v\<close>.
\<close>

definition detections :: "graph \<Rightarrow> ((nat \<times> nat) \<times> nat) set" where
  "detections g =
     {((u, v), w). u < nodeCountForAllocation g \<and> v \<in> neighbours g u \<and>
                   w \<in> neighbours g u \<and> w \<in> neighbours g v}"

text \<open>
  The three nodes of a detection.
\<close>

definition triangle_of :: "(nat \<times> nat) \<times> nat \<Rightarrow> nat set" where
  "triangle_of d = {fst (fst d), snd (fst d), snd d}"

text \<open>
  The triples \<open>u, v, w\<close> of nodes of ascending rank that are pairwise adjacent.
\<close>

definition chains :: "(nat \<times> nat) set \<Rightarrow> ((nat \<times> nat) \<times> nat) set" where
  "chains E = {((u, v), w). v \<in> out_nbrs E u \<and> w \<in> out_nbrs E u \<and> w \<in> out_nbrs E v}"

text \<open>
  The decimal numeral of a number, as it stands in an input file.
\<close>

fun dec :: "nat \<Rightarrow> string" where
  "dec n = (if n < 10 then [char_of (48 + n)] else dec (n div 10) @ [char_of (48 + n mod 10)])"

text \<open>
  The input line of an edge record: two numerals separated by a space.
\<close>

definition edge_line :: "nat \<times> nat \<Rightarrow> string" where
  "edge_line r = dec (fst r) @ '' '' @ dec (snd r)"

text \<open>
  The pairs \<open>i < j\<close> of the numbers below \<open>n\<close>.
\<close>

definition all_pairs :: "nat \<Rightarrow> (nat \<times> nat) list" where
  "all_pairs n = concat (map (\<lambda>i. map (Pair i) [Suc i ..< n]) [0 ..< n])"

text \<open>
  The input file of the complete graph on the nodes \<open>0, \<dots>, n - 1\<close>: one line for
  every pair of nodes.
\<close>

definition complete_graph :: "nat \<Rightarrow> string list" where
  "complete_graph n = map edge_line (all_pairs n)"

section \<open>The sorted intersection\<close>

lemma unat_inc_below: "(i :: u32) < m \<Longrightarrow> unat (i + 1) = Suc (unat i)"
  using unsigned_less [of m, where 'a = nat]
  by (simp add: word_less_nat_alt unat_word_ariths)

lemma slice_Cons:
  "i < e \<Longrightarrow> unat e \<le> length buf \<Longrightarrow> slice buf i e = buf ! unat i # slice buf (i + 1) e"
proof -
  assume lt: "i < e" and le: "unat e \<le> length buf"
  have l: "unat i < length (take (unat e) buf)" using lt le by (simp add: word_less_nat_alt)
  have "drop (unat i) (take (unat e) buf) =
        take (unat e) buf ! unat i # drop (Suc (unat i)) (take (unat e) buf)"
    using l by (rule Cons_nth_drop_Suc [symmetric])
  moreover have "take (unat e) buf ! unat i = buf ! unat i"
    using lt by (simp add: word_less_nat_alt)
  ultimately show ?thesis by (simp add: slice_def unat_inc_below [OF lt])
qed

lemma slice_Nil: "\<not> i < e \<Longrightarrow> slice buf i e = []"
  by (simp add: slice_def word_less_nat_alt)

lemma load_in: "i < e \<Longrightarrow> unat e \<le> length buf \<Longrightarrow> load buf i = Inr (buf ! unat i)"
  by (simp add: load_def word_less_nat_alt)

lemma inter_mset_skip:
  "sorted (x # xs) \<Longrightarrow> sorted (y # ys) \<Longrightarrow> x < y \<Longrightarrow>
   mset (x # xs) \<inter># mset (y # ys) = mset xs \<inter># mset (y # ys)"
  for x :: "'a :: linorder"
proof -
  assume s: "sorted (y # ys)" and lt: "x < y"
  then have "x \<notin> set (y # ys)" by auto
  then have "x \<notin># mset (y # ys)" by (metis set_mset_mset)
  then have "add_mset x (mset xs) \<inter># mset (y # ys) = mset xs \<inter># mset (y # ys)"
    by (rule inter_add_left1)
  then show ?thesis by (simp only: mset.simps(2) [of x xs])
qed

lemma loop_correct:
  "unat u_end \<le> length adj \<Longrightarrow> unat v_end \<le> length adj \<Longrightarrow>
   sorted (slice adj i u_end) \<Longrightarrow> sorted (slice adj j v_end) \<Longrightarrow>
   count_intersection_loop adj u_end v_end cnt i j =
     Inr (cnt + of_nat (size (mset (slice adj i u_end) \<inter># mset (slice adj j v_end))))"
proof (induction adj u_end v_end cnt i j rule: count_intersection_loop.induct)
  case (1 adj u_end v_end cnt i j)
  show ?case
  proof (cases "i < u_end \<and> j < v_end")
    case False
    then have "slice adj i u_end = [] \<or> slice adj j v_end = []"
      by (auto simp: slice_Nil)
    then have "mset (slice adj i u_end) \<inter># mset (slice adj j v_end) = {#}"
      by auto
    with False show ?thesis
      by (subst count_intersection_loop.simps) auto
  next
    case True
    then have iu: "i < u_end" and jv: "j < v_end" by auto
    let ?x = "adj ! unat i" and ?y = "adj ! unat j"
    let ?xs = "slice adj (i + 1) u_end" and ?ys = "slice adj (j + 1) v_end"
    have sx: "slice adj i u_end = ?x # ?xs" using iu "1.prems"(1) by (rule slice_Cons)
    have sy: "slice adj j v_end = ?y # ?ys" using jv "1.prems"(2) by (rule slice_Cons)
    have lx: "load adj i = Inr ?x" using iu "1.prems"(1) by (rule load_in)
    have ly: "load adj j = Inr ?y" using jv "1.prems"(2) by (rule load_in)
    have sxs: "sorted ?xs" using "1.prems"(3) sx by simp
    have sys: "sorted ?ys" using "1.prems"(4) sy by simp
    consider (eq) "?x = ?y" | (lt) "?x \<noteq> ?y" "?x < ?y" | (gt) "?x \<noteq> ?y" "\<not> ?x < ?y"
      by blast
    then show ?thesis
    proof cases
      case eq
      have "count_intersection_loop adj u_end v_end (cnt + 1) (i + 1) (j + 1) =
        Inr (cnt + 1 + of_nat (size (mset ?xs \<inter># mset ?ys)))"
        using "1.IH"(1) [OF True lx ly eq "1.prems"(1,2) sxs sys] .
      moreover have "mset (?x # ?xs) \<inter># mset (?y # ?ys) = add_mset ?x (mset ?xs \<inter># mset ?ys)"
        using eq by simp
      ultimately show ?thesis
        using True lx ly eq
        by (subst count_intersection_loop.simps) (simp add: sx sy del: mset.simps)
    next
      case lt
      have "count_intersection_loop adj u_end v_end cnt (i + 1) j =
        Inr (cnt + of_nat (size (mset ?xs \<inter># mset (slice adj j v_end))))"
        using "1.IH"(2) [OF True lx ly lt(1) lt(2) "1.prems"(1,2) sxs "1.prems"(4)] .
      moreover have "mset (?x # ?xs) \<inter># mset (?y # ?ys) = mset ?xs \<inter># mset (?y # ?ys)"
        using "1.prems"(3,4) lt(2) unfolding sx sy by (rule inter_mset_skip)
      ultimately show ?thesis
        using True lx ly lt
        by (subst count_intersection_loop.simps) (simp add: sx sy del: mset.simps)
    next
      case gt
      then have yx: "?y < ?x" by auto
      have "count_intersection_loop adj u_end v_end cnt i (j + 1) =
        Inr (cnt + of_nat (size (mset (slice adj i u_end) \<inter># mset ?ys)))"
        using "1.IH"(3) [OF True lx ly gt(1) gt(2) "1.prems"(1,2) "1.prems"(3) sys] .
      moreover have "mset (?y # ?ys) \<inter># mset (?x # ?xs) = mset ?ys \<inter># mset (?x # ?xs)"
        using "1.prems"(4,3) yx unfolding sx sy by (rule inter_mset_skip)
      then have "mset (?x # ?xs) \<inter># mset (?y # ?ys) = mset (?x # ?xs) \<inter># mset ?ys"
        by (simp only: multiset_inter_commute [of "mset (?x # ?xs)"])
      ultimately show ?thesis
        using True lx ly gt
        by (subst count_intersection_loop.simps) (simp add: sx sy del: mset.simps)
    qed
  qed
qed


lemma inter_distinct_card:
  "distinct xs \<Longrightarrow> distinct ys \<Longrightarrow> size (mset xs \<inter># mset ys) = card (set xs \<inter> set ys)"
proof -
  assume dx: "distinct xs" and dy: "distinct ys"
  have "mset xs \<inter># mset ys = mset_set (set xs \<inter> set ys)"
  proof (rule multiset_eqI)
    fix a
    have cx: "count (mset xs) a = (if a \<in> set xs then 1 else 0)"
      using dx by (simp add: distinct_count_atmost_1)
    have cy: "count (mset ys) a = (if a \<in> set ys then 1 else 0)"
      using dy by (simp add: distinct_count_atmost_1)
    show "count (mset xs \<inter># mset ys) a = count (mset_set (set xs \<inter> set ys)) a"
      by (simp add: cx cy)
  qed
  then show ?thesis by simp
qed

lemma inter_size_le: "size (mset xs \<inter># mset ys) \<le> length xs"
proof -
  have "mset xs \<inter># mset ys \<subseteq># mset xs" by simp
  then have "size (mset xs \<inter># mset ys) \<le> size (mset xs)" by (rule size_mset_mono)
  then show ?thesis by simp
qed

lemma length_slice_lt: "length (slice buf s e) < 2 ^ 32" for e :: u32
proof -
  have "length (slice buf s e) \<le> unat e" by (simp add: slice_def)
  moreover have "unat e < 2 ^ 32" using unsigned_less [of e, where 'a = nat] by simp
  ultimately show ?thesis by simp
qed

lemma unat_of_nat_u32: "n < 2 ^ 32 \<Longrightarrow> unat (of_nat n :: u32) = n"
  by (simp add: unat_of_nat take_bit_nat_eq_self)

text \<open>
  Claim C2, as amended. For two index ranges that lie inside \<open>adj_data\<close> and are ascending,
  \<open>count_intersection\<close> returns (it reads nothing out of bounds, and its counter does not
  wrap) the size of the multiset intersection of the two ranges; when both ranges are
  strictly ascending, that is, ascending without a repeated value, this is the size of the
  intersection of their element sets.
\<close>

theorem count_intersection_sorted:
  assumes "unat u_end \<le> length adj" and "unat v_end \<le> length adj"
    and "sorted (slice adj u_start u_end)" and "sorted (slice adj v_start v_end)"
  shows "\<exists>c. count_intersection adj u_start u_end v_start v_end = Inr c \<and>
           unat c = size (mset (slice adj u_start u_end) \<inter># mset (slice adj v_start v_end)) \<and>
           (distinct (slice adj u_start u_end) \<and> distinct (slice adj v_start v_end) \<longrightarrow>
              unat c = card (set (slice adj u_start u_end) \<inter> set (slice adj v_start v_end)))"
proof -
  let ?xs = "slice adj u_start u_end" and ?ys = "slice adj v_start v_end"
  let ?n = "size (mset ?xs \<inter># mset ?ys)"
  have run: "count_intersection adj u_start u_end v_start v_end = Inr (of_nat ?n)"
    using loop_correct [OF assms, of 0] by (simp add: count_intersection_def)
  have "?n \<le> length ?xs" by (rule inter_size_le)
  then have "?n < 2 ^ 32" using length_slice_lt [of adj u_start u_end] by simp
  then have u: "unat (of_nat ?n :: u32) = ?n" by (rule unat_of_nat_u32)
  have "distinct ?xs \<and> distinct ?ys \<longrightarrow> unat (of_nat ?n :: u32) = card (set ?xs \<inter> set ?ys)"
  proof
    assume "distinct ?xs \<and> distinct ?ys"
    then have "?n = card (set ?xs \<inter> set ?ys)" by (simp add: inter_distinct_card)
    with u show "unat (of_nat ?n :: u32) = card (set ?xs \<inter> set ?ys)" by (rule trans)
  qed
  with run u show ?thesis by blast
qed

theorem count_intersection_sorted_witness:
  "\<exists>c. count_intersection [2, 3, 3] 0 2 2 3 = Inr c \<and> unat c = 1"
proof -
  have s1: "slice [2, 3, 3 :: u32] 0 2 = [2, 3]" by (simp add: slice_def)
  have s2: "slice [2, 3, 3 :: u32] 2 3 = [3]" by (simp add: slice_def)
  have "card (set [2, 3 :: u32] \<inter> set [3]) = 1" by simp
  then show ?thesis
    using count_intersection_sorted [of 2 "[2, 3, 3]" 3 0 2] by (auto simp: s1 s2)
qed

text \<open>
  Claim C2 as stated fails on an ascending range with a repeated value: on the range
  \<open>[1, 1]\<close> against itself the merge counts 2, and the set intersection has one element.
\<close>

theorem count_intersection_repeated_counterexample:
  "count_intersection [1, 1] 0 2 0 2 = Inr 2 \<and>
   sorted (slice [1, 1 :: u32] 0 2) \<and>
   card (set (slice [1, 1 :: u32] 0 2) \<inter> set (slice [1, 1 :: u32] 0 2)) = 1"
proof -
  have s: "slice [1, 1 :: u32] 0 2 = [1, 1]" by (simp add: slice_def)
  have l0: "load [1, 1] 0 = Inr 1" by (simp add: load_def)
  have l1: "load [1, 1] 1 = Inr 1" by (simp add: load_def)
  have "count_intersection_loop [1, 1] 2 2 2 2 2 = Inr 2"
    by (subst count_intersection_loop.simps) simp
  then have "count_intersection_loop [1, 1] 2 2 1 1 1 = Inr 2"
    by (subst count_intersection_loop.simps) (simp add: l1)
  then have "count_intersection_loop [1, 1] 2 2 0 0 0 = Inr 2"
    by (subst count_intersection_loop.simps) (simp add: l0)
  then show ?thesis by (simp add: count_intersection_def s)
qed

text \<open>
  Claim C7. An invocation whose identifier is at least the node count (the length of
  \<open>adj_offsets\<close> minus 1, in \<open>u32\<close>) returns the counter it was given, whatever the two
  buffers hold: it reads none of their elements, since for the empty \<open>adj_data\<close> any read
  would be \<open>OutOfBounds\<close>.
\<close>

theorem main_out_of_range:
  "global_id \<ge> arrayLength offsets - 1 \<Longrightarrow> main offsets adj triangle_count global_id = Inr triangle_count"
  by (simp add: main_def)

theorem main_out_of_range_witness:
  "(5 :: u32) \<ge> arrayLength [0, 0, 2, 3, 3] - 1 \<and> main [0, 0, 2, 3, 3] [] 7 5 = Inr 7"
proof -
  have h: "(5 :: u32) \<ge> arrayLength [0, 0, 2, 3, 3] - 1" by (simp add: arrayLength_def)
  show ?thesis using h main_out_of_range [OF h, of "[]" 7] by simp
qed

lemma for_each_filter:
  "(\<And>s x. x \<in> set xs \<Longrightarrow> \<not> P x \<Longrightarrow> body s x = Inr s) \<Longrightarrow>
   for_each body (filter P xs) s = for_each body xs s"
proof (induction xs arbitrary: s)
  case Nil
  show ?case by simp
next
  case (Cons x xs)
  have ih: "for_each body (filter P xs) s' = for_each body xs s'" for s'
    using Cons.IH Cons.prems by simp
  show ?case
  proof (cases "P x")
    case True
    then show ?thesis by (simp add: ih split: sum.split)
  next
    case False
    then have "body s x = Inr s" using Cons.prems by simp
    with False show ?thesis by (simp add: ih)
  qed
qed

lemma pass1_line_ignored: "ignored l \<Longrightarrow> pass1_line st l = Inr st"
  by (cases st) (auto simp: ignored_def pass1_line_def)

lemma pass2_line_ignored: "ignored l \<Longrightarrow> pass2_line st l = Inr st"
  by (cases st) (auto simp: ignored_def pass2_line_def)

lemma pass1_filter: "pass1 (filter (\<lambda>l. \<not> ignored l) lines) = pass1 lines"
  unfolding pass1_def by (rule for_each_filter) (simp add: pass1_line_ignored)

lemma pass2_filter: "pass2 (filter (\<lambda>l. \<not> ignored l) lines) n = pass2 lines n"
  unfolding pass2_def by (rule for_each_filter) (simp add: pass2_line_ignored)

text \<open>
  Claim C8, as amended. Removing from the input every chunk of length 0 and every line
  that starts with \<open>#\<close> changes neither the result of the first pass (the edge and node
  statistics, \<open>maxNodeId\<close>, \<open>validEdgeCount\<close>), nor that of the second pass, nor the
  result of \<open>processGraph\<close>.
\<close>

theorem ignored_lines_dropped:
  "pass1 (filter (\<lambda>l. \<not> (length l = 0 \<or> startsWith l ''#'')) lines) = pass1 lines \<and>
   pass2 (filter (\<lambda>l. \<not> (length l = 0 \<or> startsWith l ''#'')) lines) n = pass2 lines n \<and>
   processGraph (filter (\<lambda>l. \<not> (length l = 0 \<or> startsWith l ''#'')) lines) = processGraph lines"
proof -
  let ?kept = "filter (\<lambda>l. \<not> ignored l) lines"
  have "ingest ?kept = ingest lines"
    unfolding ingest_def pass1_filter pass2_filter by (rule refl)
  then have "processGraph ?kept = processGraph lines"
    by (simp only: processGraph_def)
  then show ?thesis
    using pass1_filter [of lines] pass2_filter [of lines n] by (simp only: ignored_def)
qed

lemmas parse_defs = parse_line_def split_ws_def trim_def isWhiteSpace_def element_def
  Number_def isDigit_def decimalValue_def

text \<open>
  Claim C8 as stated fails for a blank line that is not empty. A line that holds one
  space is not skipped: the first pass counts it as an edge (with the nodes \<open>0\<close> and
  \<open>undefined\<close>), and the second pass throws a RangeError at \<open>BigInt(NaN)\<close>.
\<close>

theorem blank_line_counterexample:
  "pass1 [] = Inr (0, [], 0, 0) \<and>
   pass1 ['' ''] = Inr (1, [Undefined, Num 0], 0, 1) \<and>
   pass2 ['' ''] 1 = Inl RangeError \<and>
   processGraph ['' ''] = Inl RangeError"
  by (simp add: processGraph_def ingest_def pass1_def pass2_def pass1_line_def pass2_line_def
      startsWith_def parse_defs)

subsection \<open>Packing\<close>

lemma low_half_take_bit: "low_half p = take_bit 32 p"
  by (simp add: low_half_def take_bit_eq_mask mask_numeral)

lemma pack_halves:
  assumes "u < 2 ^ 32" and "v < 2 ^ 32"
  shows "high_half (pack u v) = u" and "low_half (pack u v) = v"
proof -
  have u: "take_bit 32 u = u" using assms(1) by (simp add: take_bit_nat_eq_self)
  have v: "take_bit 32 v = v" using assms(2) by (simp add: take_bit_nat_eq_self)
  have "drop_bit 32 (take_bit 64 (push_bit 32 (take_bit 32 u) OR take_bit 32 v)) = take_bit 32 u"
    by (rule bit_eqI) (auto simp: bit_simps)
  then show "high_half (pack u v) = u" by (simp add: high_half_def pack_def u v)
  have "take_bit 32 (take_bit 64 (push_bit 32 u OR take_bit 32 v)) = take_bit 32 v"
    by (rule bit_eqI) (auto simp: bit_simps)
  then show "low_half (pack u v) = v" by (simp add: low_half_take_bit pack_def v)
qed

subsection \<open>Parsing\<close>

lemma split_from_not_Nil: "split_from cur insep s \<noteq> []"
  by (induction cur insep s rule: split_from.induct) auto

lemma Number_cases: "Number s = Inl Unsupported \<or> (\<exists>a. Number s = Inr (Num a))"
  by (simp add: Number_def)

lemma parse_line_cases:
  "(\<exists>e. parse_line l = Inl e) \<or> (\<exists>a. parse_line l = Inr (Num a, Undefined))
   \<or> (\<exists>a b. parse_line l = Inr (Num a, Num b))"
proof -
  let ?toks = "split_ws (trim l)"
  have ne: "0 < length ?toks" using split_from_not_Nil by (simp add: split_ws_def)
  have e0: "element ?toks 0 = Number (?toks ! 0)" using ne by (simp add: element_def)
  have e1: "element ?toks 1 = Inr Undefined \<or> element ?toks 1 = Number (?toks ! 1)"
    by (simp add: element_def)
  show ?thesis
    using Number_cases [of "?toks ! 0"] Number_cases [of "?toks ! 1"] e1
    by (auto simp: parse_line_def e0)
qed

lemma record_of_Some: "record_of l = Some (a, b) \<longleftrightarrow> parse_line l = Inr (Num a, Num b)"
  by (auto simp: record_of_def split: sum.splits jsval.splits prod.splits)

lemma record_of_None:
  "record_of l = None \<Longrightarrow> (\<exists>e. parse_line l = Inl e) \<or> (\<exists>a. parse_line l = Inr (Num a, Undefined))"
  using parse_line_cases [of l] by (auto simp: record_of_def)

subsection \<open>The two passes\<close>

lemma pass2_line_record:
  "\<not> ignored l \<Longrightarrow> record_of l = Some r \<Longrightarrow>
   pass2_line (arr, k) l =
     Inr (if fst r = snd r then (arr, k) else (arr[k := pack_record r], Suc k))"
  by (cases r) (auto simp: record_of_Some pass2_line_def ignored_def pack_record_def)

lemma pass2_line_bad:
  "\<not> ignored l \<Longrightarrow> record_of l = None \<Longrightarrow> \<exists>e. pass2_line st l = Inl e"
  using record_of_None [of l]
  by (cases st) (auto simp: pass2_line_def ignored_def)

lemma pass1_line_record:
  "\<not> ignored l \<Longrightarrow> record_of l = Some r \<Longrightarrow>
   pass1_line (ec, ids, mx, vc) l =
     Inr (Suc ec, List.insert (Num (snd r)) (List.insert (Num (fst r)) ids),
          max mx (max (fst r) (snd r)), if fst r \<noteq> snd r then Suc vc else vc)"
  by (cases r) (auto simp: record_of_Some pass1_line_def ignored_def)

lemma records_Cons:
  "records (l # ls) =
     (if ignored l then records ls
      else case record_of l of None \<Rightarrow> records ls | Some r \<Rightarrow> r # records ls)"
  by (simp add: records_def map_filter_simps split: option.split)

lemma well_formed_Cons:
  "well_formed (l # ls) \<longleftrightarrow> (ignored l \<or> record_of l \<noteq> None) \<and> well_formed ls"
  by (simp add: well_formed_def)

lemma pass2_loop:
  "for_each pass2_line lines (xs @ replicate n 0, length xs) = Inr (arr, k) \<Longrightarrow>
   length (proper (records lines)) \<le> n \<Longrightarrow>
   well_formed lines \<and>
   arr = xs @ map pack_record (proper (records lines))
            @ replicate (n - length (proper (records lines))) 0 \<and>
   k = length xs + length (proper (records lines))"
proof (induction lines arbitrary: xs n)
  case Nil
  then show ?case by (simp add: records_def well_formed_def proper_def map_filter_simps)
next
  case (Cons l ls)
  show ?case
  proof (cases "ignored l")
    case True
    then have "for_each pass2_line ls (xs @ replicate n 0, length xs) = Inr (arr, k)"
      using Cons.prems(1) by (simp add: pass2_line_ignored)
    moreover have "length (proper (records ls)) \<le> n"
      using Cons.prems(2) True by (simp add: records_Cons)
    ultimately show ?thesis
      using Cons.IH [of xs n] True by (simp add: records_Cons well_formed_Cons)
  next
    case False
    show ?thesis
    proof (cases "record_of l")
      case None
      then obtain e where "pass2_line (xs @ replicate n 0, length xs) l = Inl e"
        using pass2_line_bad [OF False] by blast
      then show ?thesis using Cons.prems(1) by simp
    next
      case (Some r)
      show ?thesis
      proof (cases "fst r = snd r")
        case True
        then have "for_each pass2_line ls (xs @ replicate n 0, length xs) = Inr (arr, k)"
          using Cons.prems(1) by (simp add: pass2_line_record [OF False Some])
        moreover have "length (proper (records ls)) \<le> n"
          using Cons.prems(2) True False Some by (simp add: records_Cons proper_def)
        ultimately show ?thesis
          using Cons.IH [of xs n] True False Some
          by (simp add: records_Cons well_formed_Cons proper_def)
      next
        case neq: False
        have len: "Suc (length (proper (records ls))) \<le> n"
          using Cons.prems(2) neq False Some by (simp add: records_Cons proper_def)
        then obtain m where n: "n = Suc m" by (cases n) auto
        have upd: "(xs @ replicate n 0)[length xs := pack_record r]
                   = (xs @ [pack_record r]) @ replicate m 0"
          by (simp add: n list_update_append)
        have "for_each pass2_line ls ((xs @ [pack_record r]) @ replicate m 0,
                 length (xs @ [pack_record r])) = Inr (arr, k)"
          using Cons.prems(1) neq by (simp add: pass2_line_record [OF False Some] upd)
        moreover have "length (proper (records ls)) \<le> m" using len n by simp
        ultimately have "well_formed ls \<and>
           arr = (xs @ [pack_record r]) @ map pack_record (proper (records ls))
                    @ replicate (m - length (proper (records ls))) 0 \<and>
           k = length (xs @ [pack_record r]) + length (proper (records ls))"
          by (rule Cons.IH)
        then show ?thesis
          using neq False Some n by (simp add: records_Cons well_formed_Cons proper_def)
      qed
    qed
  qed
qed

lemma pass1_loop:
  "well_formed lines \<Longrightarrow>
   \<exists>ids'. for_each pass1_line lines (ec, ids, mx, vc) =
     Inr (ec + length (records lines), ids',
          fold (\<lambda>r m. max m (max (fst r) (snd r))) (records lines) mx,
          vc + length (proper (records lines)))"
proof (induction lines arbitrary: ec ids mx vc)
  case Nil
  then show ?case by (simp add: records_def proper_def map_filter_simps)
next
  case (Cons l ls)
  then have wf: "well_formed ls" and hd: "ignored l \<or> record_of l \<noteq> None"
    by (auto simp: well_formed_Cons)
  show ?case
  proof (cases "ignored l")
    case True
    then show ?thesis
      using Cons.IH [OF wf, of ec ids mx vc] by (simp add: pass1_line_ignored records_Cons)
  next
    case False
    then obtain r where r: "record_of l = Some r" using hd by auto
    show ?thesis
      using Cons.IH [OF wf, of "Suc ec" "List.insert (Num (snd r)) (List.insert (Num (fst r)) ids)"
          "max mx (max (fst r) (snd r))" "if fst r \<noteq> snd r then Suc vc else vc"]
      by (auto simp: pass1_line_record [OF False r] records_Cons False r proper_def)
  qed
qed

subsection \<open>Deduplication\<close>

lemma remdups_adj_take_Suc:
  "0 < k \<Longrightarrow> k < length a \<Longrightarrow>
   remdups_adj (take (Suc k) a) =
     remdups_adj (take k a) @ (if a ! (k - 1) = a ! k then [] else [a ! k])"
proof -
  assume k: "0 < k" "k < length a"
  then obtain j where j: "k = Suc j" by (cases k) auto
  have "take (Suc k) a = take j a @ [a ! j, a ! k]"
    using k j by (simp add: take_Suc_conv_app_nth)
  moreover have "take k a = take j a @ [a ! j]"
    using k j by (simp add: take_Suc_conv_app_nth)
  ultimately show ?thesis using j by (simp add: remdups_adj_append_two)
qed

lemma remdups_adj_take_length:
  "k \<le> length a \<Longrightarrow> length (remdups_adj (take k a)) \<le> length (remdups_adj a)"
proof (induction "length a - k" arbitrary: k)
  case 0
  then show ?case by simp
next
  case (Suc d)
  then have lt: "k < length a" by simp
  have "length (remdups_adj (take k a)) \<le> length (remdups_adj (take (Suc k) a))"
  proof (cases "k = 0")
    case True
    then show ?thesis by simp
  next
    case False
    then show ?thesis using lt by (simp add: remdups_adj_take_Suc)
  qed
  moreover have "length (remdups_adj (take (Suc k) a)) \<le> length (remdups_adj a)"
    using Suc.hyps(1) [of "Suc k"] Suc.hyps(2) lt by simp
  ultimately show ?case by simp
qed

lemma count_unique_loop:
  "0 < k \<Longrightarrow> k \<le> length a \<Longrightarrow>
   foldl (\<lambda>c i. if a ! i \<noteq> a ! (i - 1) then c + 1 else c) 1 [1 ..< k]
     = length (remdups_adj (take k a))"
proof (induction k)
  case 0
  then show ?case by simp
next
  case (Suc k)
  show ?case
  proof (cases "k = 0")
    case True
    then show ?thesis using Suc.prems by (cases a) simp_all
  next
    case False
    then have "foldl (\<lambda>c i. if a ! i \<noteq> a ! (i - 1) then c + 1 else c) 1 [1 ..< k]
                = length (remdups_adj (take k a))"
      using Suc by simp
    moreover have "[1 ..< Suc k] = [1 ..< k] @ [k]" using False by simp
    ultimately show ?thesis
      using False Suc.prems by (simp add: remdups_adj_take_Suc eq_commute [of "a ! k"])
  qed
qed

lemma count_unique_eq: "count_unique a = length (remdups_adj a)"
proof (cases "a = []")
  case True
  then show ?thesis by (simp add: count_unique_def)
next
  case False
  then show ?thesis
    using count_unique_loop [of "length a" a] by (simp add: count_unique_def)
qed

lemma fill_unique_loop:
  fixes a :: "nat list"
  defines "step \<equiv> (\<lambda>(u, cnt) i. if a ! i \<noteq> a ! (i - 1) then (u[cnt := a ! i], cnt + 1) else (u, cnt))"
  shows "0 < k \<Longrightarrow> k \<le> length a \<Longrightarrow>
   foldl step ((replicate (length (remdups_adj a)) 0)[0 := a ! 0], 1) [1 ..< k]
     = (remdups_adj (take k a)
          @ replicate (length (remdups_adj a) - length (remdups_adj (take k a))) 0,
        length (remdups_adj (take k a)))"
proof (induction k)
  case 0
  then show ?case by simp
next
  case (Suc k)
  let ?n = "length (remdups_adj a)"
  let ?s0 = "((replicate ?n 0)[0 := a ! 0], 1 :: nat)"
  show ?case
  proof (cases "k = 0")
    case True
    from Suc.prems obtain x xs where a: "a = x # xs" by (cases a) auto
    have "0 < ?n" using a by (cases xs) (simp_all add: a)
    then obtain m where m: "?n = Suc m" by (cases ?n) auto
    show ?thesis using True a m by simp
  next
    case False
    let ?r = "remdups_adj (take k a)"
    have ih: "foldl step ?s0 [1 ..< k] = (?r @ replicate (?n - length ?r) 0, length ?r)"
      using Suc False by simp
    have "[1 ..< Suc k] = [1 ..< k] @ [k]" using False by simp
    then have st: "foldl step ?s0 [1 ..< Suc k] = step (?r @ replicate (?n - length ?r) 0, length ?r) k"
      by (simp only: foldl_append foldl.simps ih)
    have rs: "remdups_adj (take (Suc k) a) = ?r @ (if a ! (k - 1) = a ! k then [] else [a ! k])"
      using False Suc.prems by (simp add: remdups_adj_take_Suc)
    show ?thesis
    proof (cases "a ! (k - 1) = a ! k")
      case True
      then show ?thesis unfolding st rs by (simp add: step_def)
    next
      case neq: False
      have "length (remdups_adj (take (Suc k) a)) \<le> ?n"
        using Suc.prems by (intro remdups_adj_take_length) simp
      then have "Suc (length ?r) \<le> ?n" using neq rs by simp
      then obtain m where m: "?n - length ?r = Suc m" by (cases "?n - length ?r") auto
      have "(?r @ replicate (?n - length ?r) 0)[length ?r := a ! k]
            = ?r @ [a ! k] @ replicate m 0"
        by (simp add: m list_update_append)
      moreover have "?n - Suc (length ?r) = m" using m by simp
      ultimately show ?thesis
        unfolding st rs using neq by (simp add: step_def eq_commute [of "a ! k"])
    qed
  qed
qed

lemma fill_unique_eq: "fill_unique a (length (remdups_adj a)) = remdups_adj a"
proof (cases "a = []")
  case True
  then show ?thesis by (simp add: fill_unique_def)
next
  case False
  then show ?thesis
    using fill_unique_loop [of "length a" a] by (simp add: fill_unique_def)
qed

lemma dedup_eq: "dedup xs = remdups_adj (sort xs)"
  by (simp add: dedup_def count_unique_eq fill_unique_eq)

lemma distinct_remdups_adj_sorted:
  "sorted xs \<Longrightarrow> distinct (remdups_adj xs)" for xs :: "'a :: linorder list"
  by (induction xs rule: remdups_adj.induct) auto

lemma dedup_props: "sorted (dedup xs)" "distinct (dedup xs)" "set (dedup xs) = set xs"
  by (simp_all add: dedup_eq distinct_remdups_adj_sorted)

lemma pass2_well_formed:
  "for_each pass2_line lines st = Inr st' \<Longrightarrow> well_formed lines"
proof (induction lines arbitrary: st)
  case Nil
  show ?case by (simp add: well_formed_def)
next
  case (Cons l ls)
  show ?case
  proof (cases "ignored l \<or> record_of l \<noteq> None")
    case True
    obtain s where "pass2_line st l = Inr s" "for_each pass2_line ls s = Inr st'"
      using Cons.prems by (auto split: sum.splits)
    then have "well_formed ls" using Cons.IH by blast
    with True show ?thesis by (simp add: well_formed_Cons)
  next
    case False
    then have "\<not> ignored l" and "record_of l = None" by blast+
    then obtain e where "pass2_line st l = Inl e" using pass2_line_bad [of l st] by blast
    then show ?thesis using Cons.prems by simp
  qed
qed

lemma fold_max_ge: "m \<le> fold (\<lambda>r m. max m (max (fst r) (snd r))) recs (m :: nat)"
proof (induction recs arbitrary: m)
  case Nil
  show ?case by simp
next
  case (Cons r recs)
  have "m \<le> max m (max (fst r) (snd r))" by simp
  also have "\<dots> \<le> fold (\<lambda>r m. max m (max (fst r) (snd r))) recs (max m (max (fst r) (snd r)))"
    by (rule Cons.IH)
  finally show ?case by simp
qed

lemma fold_max_member:
  "r \<in> set recs \<Longrightarrow> max (fst r) (snd r) \<le> fold (\<lambda>r m. max m (max (fst r) (snd r))) recs (m :: nat)"
proof (induction recs arbitrary: m)
  case Nil
  then show ?case by simp
next
  case (Cons q recs)
  show ?case
  proof (cases "r = q")
    case True
    have "max (fst r) (snd r) \<le> max m (max (fst r) (snd r))" by simp
    also have "\<dots> \<le> fold (\<lambda>r m. max m (max (fst r) (snd r))) recs (max m (max (fst r) (snd r)))"
      by (rule fold_max_ge)
    finally show ?thesis using True by simp
  next
    case False
    then have "r \<in> set recs" using Cons.prems by simp
    then show ?thesis using Cons.IH by simp
  qed
qed

lemma max_id_member: "r \<in> set recs \<Longrightarrow> fst r \<le> max_id recs \<and> snd r \<le> max_id recs"
  using fold_max_member [of r recs 0] by (simp add: max_id_def)

text \<open>What a successful ingestion has computed.\<close>

lemma ingest_success:
  assumes "ingest lines = Inr (st, es)"
  shows "well_formed lines"
    and "\<exists>ids. st = (length (records lines), ids, max_id (records lines),
                    length (proper (records lines)))"
    and "es = dedup (map pack_record (proper (records lines)))"
proof -
  obtain arr k where p1: "pass1 lines = Inr st"
    and p2: "pass2 lines (snd (snd (snd st))) = Inr (arr, k)" and es: "es = dedup arr"
    using assms by (auto simp: ingest_def split: sum.splits prod.splits)
  show wf: "well_formed lines" using p2 unfolding pass2_def by (rule pass2_well_formed)
  obtain ids where st: "st = (length (records lines), ids, max_id (records lines),
                    length (proper (records lines)))"
    using pass1_loop [OF wf, of 0 "[]" 0 0] p1 by (auto simp: pass1_def max_id_def)
  then show "\<exists>ids. st = (length (records lines), ids, max_id (records lines),
                    length (proper (records lines)))" by blast
  have "for_each pass2_line lines ([] @ replicate (length (proper (records lines))) 0, length ([] :: nat list))
          = Inr (arr, k)"
    using p2 st by (simp add: pass2_def)
  then have "arr = [] @ map pack_record (proper (records lines))
      @ replicate (length (proper (records lines)) - length (proper (records lines))) 0"
    using pass2_loop by blast
  then show "es = dedup (map pack_record (proper (records lines)))" using es by simp
qed

lemma build_graph_node_count:
  "build_graph (ec, ids, mx, vc) es = Inr g \<Longrightarrow>
   mx + 1 \<le> 2 ^ 32 - 1 \<and> nodeCountForAllocation g = mx + 1"
  by (auto simp: build_graph_def oriented_def Let_def split: sum.splits prod.splits if_splits)

lemma processGraph_success:
  assumes "processGraph lines = Inr g"
  shows "\<exists>ids. ingest lines = Inr ((length (records lines), ids, max_id (records lines),
                    length (proper (records lines))),
                  dedup (map pack_record (proper (records lines))))"
    and "well_formed lines"
    and "max_id (records lines) + 1 \<le> 2 ^ 32 - 1"
    and "nodeCountForAllocation g = max_id (records lines) + 1"
proof -
  obtain st es where ing: "ingest lines = Inr (st, es)" and bg: "build_graph st es = Inr g"
    using assms by (auto simp: processGraph_def split: sum.splits prod.splits)
  from ingest_success [OF ing] obtain ids where
    wf: "well_formed lines"
    and st: "st = (length (records lines), ids, max_id (records lines), length (proper (records lines)))"
    and es: "es = dedup (map pack_record (proper (records lines)))"
    by blast
  show "well_formed lines" by (rule wf)
  show "\<exists>ids. ingest lines = Inr ((length (records lines), ids, max_id (records lines),
                    length (proper (records lines))),
                  dedup (map pack_record (proper (records lines))))"
    using ing st es by blast
  show "max_id (records lines) + 1 \<le> 2 ^ 32 - 1"
    and "nodeCountForAllocation g = max_id (records lines) + 1"
    using build_graph_node_count [of "length (records lines)" ids "max_id (records lines)"
        "length (proper (records lines))" es g] bg st by auto
qed

lemma unpack_pack_record:
  "fst r < 2 ^ 32 \<Longrightarrow> snd r < 2 ^ 32 \<Longrightarrow> unpack (pack_record r) = canonical r"
  by (simp add: unpack_def pack_record_def canonical_def pack_halves min_def max_def)

lemma pack_record_canonical: "pack_record r = pack (fst (canonical r)) (snd (canonical r))"
  by (simp add: pack_record_def canonical_def)

lemma records_member:
  "l \<in> set lines \<Longrightarrow> \<not> ignored l \<Longrightarrow> record_of l = Some r \<Longrightarrow> r \<in> set (records lines)"
  by (induction lines) (auto simp: records_Cons split: option.splits)

lemma success_ids_small:
  assumes "processGraph lines = Inr g" and "r \<in> set (records lines)"
  shows "fst r < 2 ^ 32 - 1" and "snd r < 2 ^ 32 - 1"
  using processGraph_success(3) [OF assms(1)] max_id_member [OF assms(2)] by simp_all

lemma success_edges:
  assumes "processGraph lines = Inr g"
  shows "\<exists>st es. ingest lines = Inr (st, es) \<and> es = dedup (map pack_record (proper (records lines)))"
    and "unpack ` set (dedup (map pack_record (proper (records lines)))) = edge_set lines"
    and "inj_on unpack (set (dedup (map pack_record (proper (records lines)))))"
proof -
  let ?P = "proper (records lines)"
  show "\<exists>st es. ingest lines = Inr (st, es) \<and> es = dedup (map pack_record ?P)"
    using processGraph_success(1) [OF assms] by blast
  have small: "fst r < 2 ^ 32 \<and> snd r < 2 ^ 32" if "r \<in> set ?P" for r
  proof -
    from that have "r \<in> set (records lines)" by (simp add: proper_def)
    then show ?thesis using success_ids_small [OF assms, of r] by simp
  qed
  have un: "unpack (pack_record r) = canonical r" if "r \<in> set ?P" for r
    using small [OF that] by (simp add: unpack_pack_record)
  show "unpack ` set (dedup (map pack_record ?P)) = edge_set lines"
  proof -
    have "unpack ` set (dedup (map pack_record ?P)) = (\<lambda>r. unpack (pack_record r)) ` set ?P"
      by (simp add: dedup_props image_image)
    also have "\<dots> = canonical ` set ?P" using un by (intro image_cong) simp_all
    finally show ?thesis by (simp add: edge_set_def)
  qed
  show "inj_on unpack (set (dedup (map pack_record ?P)))"
  proof (rule inj_onI)
    fix p q
    assume "p \<in> set (dedup (map pack_record ?P))" "q \<in> set (dedup (map pack_record ?P))"
      and eq: "unpack p = unpack q"
    then obtain r s where r: "r \<in> set ?P" "p = pack_record r" and s: "s \<in> set ?P" "q = pack_record s"
      by (auto simp: dedup_props)
    have "canonical r = canonical s" using eq un r s by simp
    then show "p = q" using r s by (simp add: pack_record_canonical)
  qed
qed

text \<open>
  Claim C9, as amended. Packing keeps both endpoints when they are below \<open>2^32\<close>. No
  endpoint is checked when the packed edge is built; a run whose input has a record with
  an endpoint of \<open>2^32 - 1\<close> or more still returns no graph: it ends with an exception,
  at the latest when the arrays of \<open>maxNodeId + 1\<close> entries are created.
\<close>

theorem packing_without_validation:
  "(u < 2 ^ 32 \<longrightarrow> v < 2 ^ 32 \<longrightarrow> unpack (pack u v) = (u, v)) \<and>
   (l \<in> set lines \<longrightarrow> \<not> (length l = 0 \<or> startsWith l ''#'') \<longrightarrow>
      parse_line l = Inr (Num a, Num b) \<longrightarrow> 2 ^ 32 - 1 \<le> max a b \<longrightarrow>
      (\<exists>e. processGraph lines = Inl e))"
proof (intro conjI impI)
  assume "u < 2 ^ 32" "v < 2 ^ 32"
  then show "unpack (pack u v) = (u, v)" by (simp add: unpack_def pack_halves)
next
  assume l: "l \<in> set lines" and ni: "\<not> (length l = 0 \<or> startsWith l ''#'')"
    and p: "parse_line l = Inr (Num a, Num b)" and big: "2 ^ 32 - 1 \<le> max a b"
  show "\<exists>e. processGraph lines = Inl e"
  proof (cases "processGraph lines")
    case (Inl e)
    then show ?thesis by blast
  next
    case (Inr g)
    have "record_of l = Some (a, b)" using p by (simp add: record_of_Some)
    then have "(a, b) \<in> set (records lines)"
      using l ni by (intro records_member [of l]) (simp_all add: ignored_def)
    then have "a < 2 ^ 32 - 1 \<and> b < 2 ^ 32 - 1" using success_ids_small [OF Inr] by fastforce
    with big show ?thesis by (simp add: max_def split: if_splits)
  qed
qed

theorem packing_without_validation_witness:
  "unpack (pack 3 5) = (3, 5) \<and> (\<exists>e. processGraph [''0 4294967296''] = Inl e)"
proof -
  have p: "parse_line ''0 4294967296'' = Inr (Num 0, Num 4294967296)"
    by (simp add: parse_defs)
  have s: "\<not> (length ''0 4294967296'' = 0 \<or> startsWith ''0 4294967296'' ''#'')"
    by (simp add: startsWith_def)
  show ?thesis
    using packing_without_validation [of 3 5 "''0 4294967296''" "[''0 4294967296'']" 0 4294967296]
      p s by simp
qed

text \<open>
  Claim C9 as stated fails: the record \<open>0 4294967296\<close> passes both passes and the
  deduplication without any check, and the packed edge that is stored reads back as the
  pair \<open>(1, 0)\<close>.
\<close>

theorem packing_overflow_counterexample:
  "ingest [''0 4294967296''] = Inr ((1, [Num 4294967296, Num 0], 4294967296, 1), [4294967296]) \<and>
   unpack 4294967296 = (1, 0)"
  by code_simp

theorem ignored_lines_dropped_witness:
  "processGraph [''# nodes 3'', ''1 2'', '''', ''2 3''] = processGraph [''1 2'', ''2 3'']"
  using ignored_lines_dropped [of "[''# nodes 3'', ''1 2'', '''', ''2 3'']" 0]
  by (simp add: startsWith_def)

subsection \<open>Loops over the indices of an array\<close>

lemma foldl_index: "foldl (\<lambda>s i. f s (xs ! i)) s [0 ..< length xs] = foldl f s xs"
proof -
  have "foldl f s xs = foldl f s (map (nth xs) [0 ..< length xs])" by (simp add: map_nth)
  also have "\<dots> = foldl (\<lambda>s i. f s (xs ! i)) s [0 ..< length xs]" by (simp add: foldl_map)
  finally show ?thesis by simp
qed

lemma for_each_map: "for_each body (map f xs) s = for_each (\<lambda>s x. body s (f x)) xs s"
  by (induction xs arbitrary: s) (auto split: sum.splits)

lemma for_each_index: "for_each (\<lambda>s i. body s (xs ! i)) [0 ..< length xs] s = for_each body xs s"
proof -
  have "for_each body xs s = for_each body (map (nth xs) [0 ..< length xs]) s"
    by (simp add: map_nth)
  then show ?thesis by (simp add: for_each_map)
qed

lemma for_each_append:
  "for_each body (xs @ ys) s =
     (case for_each body xs s of Inl e \<Rightarrow> Inl e | Inr s' \<Rightarrow> for_each body ys s')"
  by (induction xs arbitrary: s) (auto split: sum.splits)

subsection \<open>Degrees\<close>

lemma length_increment [simp]: "length (increment ds j) = length ds"
  by (simp add: increment_def)

lemma increment_nth:
  "i < length ds \<Longrightarrow> increment ds j ! i = ds ! i + (if i = j then 1 else 0)"
  by (simp add: increment_def nth_list_update)

lemma degrees_fold:
  "i < length ds \<Longrightarrow>
   length (foldl (\<lambda>ds p. increment (increment ds (high_half p)) (low_half p)) ds es) = length ds \<and>
   foldl (\<lambda>ds p. increment (increment ds (high_half p)) (low_half p)) ds es ! i
     = ds ! i + of_nat (incidences es i)"
proof (induction es arbitrary: ds)
  case Nil
  show ?case by (simp add: incidences_def)
next
  case (Cons p es)
  let ?ds = "increment (increment ds (high_half p)) (low_half p)"
  have l: "i < length ?ds" using Cons.prems by simp
  have v: "?ds ! i = ds ! i + (if i = high_half p then 1 else 0) + (if i = low_half p then 1 else 0)"
    using Cons.prems by (simp add: increment_nth)
  show ?case using Cons.IH [OF l] v by (auto simp: incidences_def)
qed

lemma build_degrees_nth:
  "i < n \<Longrightarrow> length (build_degrees es n) = n \<and> build_degrees es n ! i = of_nat (incidences es i)"
proof -
  assume i: "i < n"
  have "build_degrees es n =
        foldl (\<lambda>ds p. increment (increment ds (high_half p)) (low_half p)) (replicate n 0) es"
    unfolding build_degrees_def Let_def
    by (rule foldl_index [of "\<lambda>ds p. increment (increment ds (high_half p)) (low_half p)"])
  then show ?thesis using degrees_fold [of i "replicate n 0" es] i by simp
qed

lemma length_build_degrees: "length (build_degrees es n) = n"
proof -
  have "length (foldl (\<lambda>ds p. increment (increment ds (high_half p)) (low_half p)) ds es)
        = length ds" for ds :: "u32 list"
    by (induction es arbitrary: ds) simp_all
  moreover have "build_degrees es n =
        foldl (\<lambda>ds p. increment (increment ds (high_half p)) (low_half p)) (replicate n 0) es"
    unfolding build_degrees_def Let_def
    by (rule foldl_index [of "\<lambda>ds p. increment (increment ds (high_half p)) (low_half p)"])
  ultimately show ?thesis by simp
qed

lemma incidences_degree:
  assumes d: "distinct es" and inj: "inj_on unpack (set es)"
    and E: "unpack ` set es = E" and nl: "\<And>e. e \<in> E \<Longrightarrow> fst e \<noteq> snd e"
  shows "incidences es i = degree E i"
proof -
  let ?H = "{p \<in> set es. high_half p = i}" and ?L = "{p \<in> set es. low_half p = i}"
  have h: "length (filter (\<lambda>p. high_half p = i) es) = card ?H"
    using d by (simp add: distinct_length_filter Int_def conj_commute)
  have l: "length (filter (\<lambda>p. low_half p = i) es) = card ?L"
    using d by (simp add: distinct_length_filter Int_def conj_commute)
  have dis: "?H \<inter> ?L = {}"
  proof -
    have False if "p \<in> set es" "high_half p = i" "low_half p = i" for p
    proof -
      have "unpack p \<in> E" using that(1) E by blast
      then show False using nl [of "unpack p"] that by (simp add: unpack_def)
    qed
    then show ?thesis by blast
  qed
  have "card ?H + card ?L = card (?H \<union> ?L)"
    using dis by (simp add: card_Un_disjoint)
  also have "?H \<union> ?L = {p \<in> set es. fst (unpack p) = i \<or> snd (unpack p) = i}"
    by (auto simp: unpack_def)
  also have "card \<dots> = card (unpack ` {p \<in> set es. fst (unpack p) = i \<or> snd (unpack p) = i})"
    by (rule card_image [symmetric]) (rule inj_on_subset [OF inj], blast)
  also have "unpack ` {p \<in> set es. fst (unpack p) = i \<or> snd (unpack p) = i}
             = {e \<in> E. fst e = i \<or> snd e = i}"
    using E by blast
  finally show ?thesis by (simp add: incidences_def h l degree_def)
qed

lemma degree_le:
  assumes fin: "finite E" and b: "\<And>e. e \<in> E \<Longrightarrow> fst e < snd e \<and> snd e < n"
  shows "degree E i \<le> n"
proof -
  let ?S = "{e \<in> E. fst e = i \<or> snd e = i}"
  let ?other = "\<lambda>e. if fst e = i then snd e else fst e"
  have inj: "inj_on ?other ?S"
  proof (rule inj_onI)
    fix e f assume "e \<in> ?S" "f \<in> ?S" "?other e = ?other f"
    then show "e = f" using b [of e] b [of f]
      by (cases e; cases f) (auto split: if_splits)
  qed
  have "?other ` ?S \<subseteq> {0 ..< n}" using b by (auto split: if_splits) (metis less_trans)+
  then have "card (?other ` ?S) \<le> card {0 ..< n}" by (intro card_mono) simp_all
  then show ?thesis using card_image [OF inj] by (simp add: degree_def)
qed

subsection \<open>Orientation\<close>

lemma unat_of_nat_less_iff:
  "a < 2 ^ 32 \<Longrightarrow> b < 2 ^ 32 \<Longrightarrow> (of_nat a :: u32) < of_nat b \<longleftrightarrow> a < b"
  by (simp add: word_less_nat_alt unat_of_nat_u32)

lemma of_nat_u32_eq_iff:
  "a < 2 ^ 32 \<Longrightarrow> b < 2 ^ 32 \<Longrightarrow> (of_nat a :: u32) = of_nat b \<longleftrightarrow> a = b"
  by (metis unat_of_nat_u32)

lemma orient_edge_step:
  assumes len: "length degrees = n" "length rows = n"
    and deg: "\<And>i. i < n \<Longrightarrow> degrees ! i = of_nat (degree E i)"
    and small: "\<And>i. i < n \<Longrightarrow> degree E i < 2 ^ 32"
    and p: "high_half p < n" "low_half p < n"
  shows "orient_edge degrees rows p =
           Inr (rows[fst (arc E (unpack p)) := rows ! fst (arc E (unpack p)) @ [snd (arc E (unpack p))]])"
proof -
  let ?u = "high_half p" and ?v = "low_half p"
  have du: "degree_at degrees ?u = Some (of_nat (degree E ?u))"
    using p len deg by (simp add: degree_at_def)
  have dv: "degree_at degrees ?v = Some (of_nat (degree E ?v))"
    using p len deg by (simp add: degree_at_def)
  have c: "(js_less (degree_at degrees ?u) (degree_at degrees ?v)
            \<or> (degree_at degrees ?u = degree_at degrees ?v \<and> ?u < ?v)) = rank_less E ?u ?v"
    using small [OF p(1)] small [OF p(2)]
    by (simp add: du dv rank_less_def unat_of_nat_less_iff of_nat_u32_eq_iff)
  show ?thesis
    unfolding orient_edge_def Let_def c
    using p len by (simp add: arc_def unpack_def push_to_def)
qed

lemma orient_loop:
  assumes len: "length degrees = n"
    and deg: "\<And>i. i < n \<Longrightarrow> degrees ! i = of_nat (degree E i)"
    and small: "\<And>i. i < n \<Longrightarrow> degree E i < 2 ^ 32"
  shows "length rows = n \<Longrightarrow> (\<And>p. p \<in> set es \<Longrightarrow> high_half p < n \<and> low_half p < n) \<Longrightarrow>
    for_each (orient_edge degrees) es rows =
      Inr (map (\<lambda>w. rows ! w @ out_list (map (\<lambda>p. arc E (unpack p)) es) w) [0 ..< n])"
proof (induction es arbitrary: rows)
  case Nil
  have "map ((!) rows) [0 ..< length rows] = rows" by (rule map_nth)
  then show ?case using Nil by (simp add: out_list_def)
next
  case (Cons p es)
  let ?a = "arc E (unpack p)"
  let ?rows = "rows[fst ?a := rows ! fst ?a @ [snd ?a]]"
  have p: "high_half p < n" "low_half p < n" using Cons.prems(2) by simp_all
  have st: "orient_edge degrees rows p = Inr ?rows"
    using len Cons.prems(1) deg small p by (rule orient_edge_step)
  have fa: "fst ?a < n" using p by (simp add: arc_def unpack_def)
  have ih: "for_each (orient_edge degrees) es ?rows =
      Inr (map (\<lambda>w. ?rows ! w @ out_list (map (\<lambda>p. arc E (unpack p)) es) w) [0 ..< n])"
    using Cons.prems by (intro Cons.IH) simp_all
  have "map (\<lambda>w. ?rows ! w @ out_list (map (\<lambda>p. arc E (unpack p)) es) w) [0 ..< n]
      = map (\<lambda>w. rows ! w @ out_list (map (\<lambda>p. arc E (unpack p)) (p # es)) w) [0 ..< n]"
    using Cons.prems(1) by (intro map_cong) (auto simp: out_list_def nth_list_update)
  then show ?case using st ih by simp
qed

lemma build_oriented_eq:
  assumes "length degrees = n"
    and "\<And>i. i < n \<Longrightarrow> degrees ! i = of_nat (degree E i)"
    and "\<And>i. i < n \<Longrightarrow> degree E i < 2 ^ 32"
    and "\<And>p. p \<in> set es \<Longrightarrow> high_half p < n \<and> low_half p < n"
  shows "build_oriented degrees es n =
      Inr (map (out_list (map (\<lambda>p. arc E (unpack p)) es)) [0 ..< n])"
proof -
  have "build_oriented degrees es n = for_each (orient_edge degrees) es (replicate n [])"
    unfolding build_oriented_def by (rule for_each_index)
  also have "\<dots> = Inr (map (\<lambda>w. replicate n [] ! w @ out_list (map (\<lambda>p. arc E (unpack p)) es) w) [0 ..< n])"
    using assms by (intro orient_loop) simp_all
  also have "map (\<lambda>w. replicate n [] ! w @ out_list (map (\<lambda>p. arc E (unpack p)) es) w) [0 ..< n]
             = map (out_list (map (\<lambda>p. arc E (unpack p)) es)) [0 ..< n]"
    by (intro map_cong) simp_all
  finally show ?thesis .
qed

subsection \<open>The compact representation\<close>

lemma push_all_eq:
  "push_all flat row =
     (if row = [] \<or> length flat + length row \<le> 2 ^ 32 - 1 then Inr (flat @ row)
      else Inl RangeError)"
  by (induction row arbitrary: flat) auto

lemma starts_Suc: "i < length rows \<Longrightarrow> starts rows (Suc i) = starts rows i + length (rows ! i)"
  by (simp add: starts_def take_Suc_conv_app_nth)

lemma starts_mono: "i \<le> j \<Longrightarrow> starts rows i \<le> starts rows j"
proof -
  assume "i \<le> j"
  then have "take j rows = take i rows @ take (j - i) (drop i rows)"
    by (metis le_add_diff_inverse take_add)
  then show ?thesis by (simp add: starts_def)
qed

lemma csr_loop:
  "k \<le> n \<Longrightarrow> length offs0 = Suc n \<Longrightarrow> length orientedAdj = n \<Longrightarrow>
   for_each (csr_row orientedAdj) [0 ..< k] (offs0, [], 0) = Inr (offs, flat, cur) \<Longrightarrow>
   flat = concat (take k (map sort orientedAdj)) \<and> cur = length flat \<and> length offs = Suc n \<and>
   (\<forall>i < k. offs ! i = of_nat (starts (map sort orientedAdj) i)) \<and>
   (\<forall>i. k \<le> i \<longrightarrow> i \<le> n \<longrightarrow> offs ! i = offs0 ! i) \<and>
   length flat \<le> 2 ^ 32 - 1"
proof (induction k arbitrary: offs flat cur)
  case 0
  then show ?case by simp
next
  case (Suc k)
  let ?rows = "map sort orientedAdj"
  obtain offs1 flat1 cur1 where
    pre: "for_each (csr_row orientedAdj) [0 ..< k] (offs0, [], 0) = Inr (offs1, flat1, cur1)"
    and step: "csr_row orientedAdj (offs1, flat1, cur1) k = Inr (offs, flat, cur)"
    using Suc.prems(4) by (auto simp: for_each_append split: sum.splits)
  have ih: "flat1 = concat (take k ?rows) \<and> cur1 = length flat1 \<and> length offs1 = Suc n \<and>
   (\<forall>i < k. offs1 ! i = of_nat (starts ?rows i)) \<and>
   (\<forall>i. k \<le> i \<longrightarrow> i \<le> n \<longrightarrow> offs1 ! i = offs0 ! i) \<and>
   length flat1 \<le> 2 ^ 32 - 1"
    using Suc.prems by (intro Suc.IH [OF _ _ _ pre]) simp_all
  have kl: "k < length ?rows" using Suc.prems by simp
  have row: "?rows ! k = sort (orientedAdj ! k)" using kl by simp
  from step have
    flat: "flat = flat1 @ sort (orientedAdj ! k)"
    and ok: "sort (orientedAdj ! k) = [] \<or> length flat1 + length (sort (orientedAdj ! k)) \<le> 2 ^ 32 - 1"
    and offs: "offs = offs1[k := of_nat cur1]"
    and cur: "cur = cur1 + length (sort (orientedAdj ! k))"
    by (auto simp: csr_row_def Let_def push_all_eq split: if_splits)
  have t: "take (Suc k) ?rows = take k ?rows @ [sort (orientedAdj ! k)]"
    using kl row by (simp add: take_Suc_conv_app_nth)
  have c1: "cur1 = starts ?rows k" using ih by (simp add: starts_def)
  have "\<forall>i < Suc k. offs ! i = of_nat (starts ?rows i)"
  proof (intro allI impI)
    fix i assume "i < Suc k"
    then show "offs ! i = of_nat (starts ?rows i)"
      using ih offs c1 Suc.prems(1) by (cases "i = k") (simp_all add: nth_list_update)
  qed
  moreover have "\<forall>i. Suc k \<le> i \<longrightarrow> i \<le> n \<longrightarrow> offs ! i = offs0 ! i"
    using ih offs by (simp add: nth_list_update)
  moreover have "length flat \<le> 2 ^ 32 - 1"
  proof (cases "sort (orientedAdj ! k) = []")
    case True
    from ih have "length flat1 \<le> 2 ^ 32 - 1" by blast
    moreover have "flat = flat1" using flat True by (simp only: append_Nil2)
    ultimately show ?thesis by simp
  next
    case False
    then show ?thesis using ok flat by (simp del: length_sort)
  qed
  ultimately show ?case using ih flat cur offs t by simp
qed

lemma build_csr_success:
  assumes "build_csr orientedAdj n = Inr (offsets, flat)" and "length orientedAdj = n"
  shows "flat = concat (map sort orientedAdj)"
    and "length offsets = Suc n"
    and "\<And>i. i \<le> n \<Longrightarrow> offsets ! i = of_nat (starts (map sort orientedAdj) i)"
    and "length flat \<le> 2 ^ 32 - 1"
proof -
  obtain offs cur where
    run: "for_each (csr_row orientedAdj) [0 ..< n] (replicate (n + 1) 0, [], 0) = Inr (offs, flat, cur)"
    and fin: "offsets = offs[n := of_nat cur]"
    using assms(1) by (auto simp: build_csr_def split: sum.splits prod.splits)
  have inv: "flat = concat (take n (map sort orientedAdj)) \<and> cur = length flat \<and> length offs = Suc n \<and>
   (\<forall>i < n. offs ! i = of_nat (starts (map sort orientedAdj) i)) \<and>
   (\<forall>i. n \<le> i \<longrightarrow> i \<le> n \<longrightarrow> offs ! i = replicate (n + 1) 0 ! i) \<and>
   length flat \<le> 2 ^ 32 - 1"
    using assms(2) by (intro csr_loop [OF _ _ _ run]) simp_all
  from inv have i1: "flat = concat (take n (map sort orientedAdj))" and i2: "cur = length flat"
    and i3: "length offs = Suc n"
    and i4: "\<forall>i < n. offs ! i = of_nat (starts (map sort orientedAdj) i)"
    and i5: "length flat \<le> 2 ^ 32 - 1"
    by blast+
  show "flat = concat (map sort orientedAdj)" using i1 assms(2) by simp
  show "length offsets = Suc n" using i3 fin by simp
  show "length flat \<le> 2 ^ 32 - 1" by (rule i5)
  fix i assume "i \<le> n"
  show "offsets ! i = of_nat (starts (map sort orientedAdj) i)"
  proof (cases "i = n")
    case True
    have "cur = starts (map sort orientedAdj) n" using i1 i2 assms(2) by (simp add: starts_def)
    then show ?thesis using True fin i3 by simp
  next
    case False
    then show ?thesis using \<open>i \<le> n\<close> fin i4 by simp
  qed
qed

subsection \<open>Rank is a strict total order\<close>

lemma rank_less_irrefl: "\<not> rank_less E u u"
  by (simp add: rank_less_def)

lemma rank_less_trans: "rank_less E u v \<Longrightarrow> rank_less E v w \<Longrightarrow> rank_less E u w"
  by (auto simp: rank_less_def)

lemma rank_less_total: "u \<noteq> v \<Longrightarrow> rank_less E u v \<or> rank_less E v u"
  by (auto simp: rank_less_def)

lemma rank_less_asym: "rank_less E u v \<Longrightarrow> \<not> rank_less E v u"
  by (auto simp: rank_less_def)

lemma arc_image_iff:
  assumes "\<And>e. e \<in> E \<Longrightarrow> fst e \<noteq> snd e"
  shows "(u, v) \<in> arc E ` E \<longleftrightarrow> adjacent E u v \<and> rank_less E u v"
proof
  assume "(u, v) \<in> arc E ` E"
  then obtain e where e: "e \<in> E" "arc E e = (u, v)" by auto
  show "adjacent E u v \<and> rank_less E u v"
  proof (cases "rank_less E (fst e) (snd e)")
    case True
    then show ?thesis using e by (auto simp: arc_def adjacent_def)
  next
    case False
    then have "rank_less E (snd e) (fst e)" using rank_less_total [of "fst e" "snd e" E] assms [OF e(1)] by auto
    then show ?thesis using e False by (auto simp: arc_def adjacent_def)
  qed
next
  assume a: "adjacent E u v \<and> rank_less E u v"
  then consider "(u, v) \<in> E" | "(v, u) \<in> E" by (auto simp: adjacent_def)
  then show "(u, v) \<in> arc E ` E"
  proof cases
    case 1
    then have "arc E (u, v) = (u, v)" using a by (simp add: arc_def)
    then show ?thesis using 1 by (metis image_eqI)
  next
    case 2
    have "\<not> rank_less E v u" using a rank_less_asym by blast
    then have "arc E (v, u) = (u, v)" by (simp add: arc_def)
    then show ?thesis using 2 by (metis image_eqI)
  qed
qed

lemma arc_inj:
  assumes "\<And>e. e \<in> E \<Longrightarrow> fst e < snd e"
  shows "inj_on (arc E) E"
proof (rule inj_onI)
  fix e f assume "e \<in> E" "f \<in> E" "arc E e = arc E f"
  then show "e = f" using assms [of e] assms [of f]
    by (cases e; cases f) (auto simp: arc_def split: if_splits)
qed

subsection \<open>Rows of the oriented adjacency\<close>

lemma out_list_props:
  assumes d: "distinct es" and inj: "inj_on unpack (set es)" and E: "unpack ` set es = E"
    and lt: "\<And>e. e \<in> E \<Longrightarrow> fst e < snd e"
  shows "set (out_list (map (\<lambda>p. arc E (unpack p)) es) u) = out_nbrs E u"
    and "distinct (out_list (map (\<lambda>p. arc E (unpack p)) es) u)"
proof -
  let ?arcs = "map (\<lambda>p. arc E (unpack p)) es"
  have ne: "fst e \<noteq> snd e" if "e \<in> E" for e using lt [OF that] by simp
  have sa: "set ?arcs = arc E ` E" using E by (auto simp: image_image)
  have "inj_on (\<lambda>p. arc E (unpack p)) (set es)"
  proof (rule inj_onI)
    fix p q assume pq: "p \<in> set es" "q \<in> set es" "arc E (unpack p) = arc E (unpack q)"
    then have "unpack p \<in> E" "unpack q \<in> E" using E by blast+
    then have "unpack p = unpack q" using arc_inj [of E] lt pq(3) by (meson inj_onD)
    then show "p = q" using inj pq by (meson inj_onD)
  qed
  then have da: "distinct ?arcs" using d by (simp add: distinct_map)
  show "set (out_list ?arcs u) = out_nbrs E u"
  proof -
    have "set (out_list xs u) = {v. (u, v) \<in> set xs}" for xs :: "(nat \<times> nat) list"
      by (induction xs) (auto simp: out_list_def)
    then have "set (out_list ?arcs u) = {v. (u, v) \<in> set ?arcs}" .
    also have "\<dots> = {v. (u, v) \<in> arc E ` E}" by (simp only: sa)
    also have "\<dots> = out_nbrs E u"
      unfolding out_nbrs_def using arc_image_iff [of E] ne by blast
    finally show ?thesis .
  qed
  have "inj_on snd {a \<in> set ?arcs. fst a = u}"
    by (rule inj_onI) (auto simp: prod_eq_iff)
  then show "distinct (out_list ?arcs u)"
    using da by (simp add: out_list_def distinct_map)
qed

lemma sort_out_list:
  assumes "distinct es" and "inj_on unpack (set es)" and "unpack ` set es = E"
    and "\<And>e. e \<in> E \<Longrightarrow> fst e < snd e"
  shows "sort (out_list (map (\<lambda>p. arc E (unpack p)) es) u) = sorted_list_of_set (out_nbrs E u)"
proof -
  let ?xs = "out_list (map (\<lambda>p. arc E (unpack p)) es) u"
  have "sorted_list_of_set (set ?xs) = sort ?xs"
    using out_list_props(2) [OF assms, of u]
    by (simp add: sorted_list_of_set_sort_remdups distinct_remdups_id)
  then show ?thesis using out_list_props(1) [OF assms, of u] by simp
qed

subsection \<open>The graph a successful run returns\<close>

lemma edge_set_bounds:
  assumes "e \<in> edge_set lines"
  shows "fst e < snd e" and "snd e < max_id (records lines) + 1"
proof -
  obtain r where r: "r \<in> set (records lines)" "fst r \<noteq> snd r" "e = canonical r"
    using assms by (auto simp: edge_set_def proper_def)
  show "fst e < snd e" using r by (auto simp: canonical_def)
  show "snd e < max_id (records lines) + 1"
    using max_id_member [OF r(1)] r(3) by (simp add: canonical_def)
qed

lemma finite_edge_set: "finite (edge_set lines)"
  by (simp add: edge_set_def)

lemma oriented_success:
  assumes run: "processGraph lines = Inr g"
  shows "\<exists>st es. ingest lines = Inr (st, es) \<and>
           distinct es \<and> inj_on unpack (set es) \<and> unpack ` set es = edge_set lines \<and>
           oriented es (max_id (records lines) + 1) =
             Inr (map (out_list (map (\<lambda>p. arc (edge_set lines) (unpack p)) es))
                    [0 ..< max_id (records lines) + 1])"
proof -
  let ?E = "edge_set lines" and ?n = "max_id (records lines) + 1"
  let ?es = "dedup (map pack_record (proper (records lines)))"
  obtain st where ing: "ingest lines = Inr (st, ?es)" using success_edges(1) [OF run] by blast
  have d: "distinct ?es" by (simp add: dedup_props)
  have inj: "inj_on unpack (set ?es)" by (rule success_edges(3) [OF run])
  have E: "unpack ` set ?es = ?E" by (rule success_edges(2) [OF run])
  have n: "?n \<le> 2 ^ 32 - 1" by (rule processGraph_success(3) [OF run])
  have b: "fst e < snd e \<and> snd e < ?n" if "e \<in> ?E" for e
    using edge_set_bounds [OF that] by simp
  have ne: "fst e \<noteq> snd e" if "e \<in> ?E" for e using b [OF that] by simp
  have deg: "build_degrees ?es ?n ! i = of_nat (degree ?E i)" if "i < ?n" for i
    using build_degrees_nth [OF that, of ?es] incidences_degree [OF d inj E ne] by simp
  have small: "degree ?E i < 2 ^ 32" for i
  proof -
    have "degree ?E i \<le> ?n" using finite_edge_set b by (rule degree_le)
    then show ?thesis using n by simp
  qed
  have ids: "high_half p < ?n \<and> low_half p < ?n" if "p \<in> set ?es" for p
  proof -
    have "unpack p \<in> ?E" using that E by blast
    then show ?thesis using b [of "unpack p"] by (simp add: unpack_def)
  qed
  have "build_oriented (build_degrees ?es ?n) ?es ?n =
      Inr (map (out_list (map (\<lambda>p. arc ?E (unpack p)) ?es)) [0 ..< ?n])"
    using length_build_degrees deg small ids by (rule build_oriented_eq)
  then have "oriented ?es ?n = Inr (map (out_list (map (\<lambda>p. arc ?E (unpack p)) ?es)) [0 ..< ?n])"
    using n by (simp add: oriented_def)
  with ing d inj E show ?thesis by blast
qed

lemma graph_structure:
  assumes run: "processGraph lines = Inr g"
  shows "nodeCountForAllocation g = max_id (records lines) + 1"
    and "nodeCountForAllocation g \<le> 2 ^ 32 - 1"
    and "adj_data g = map of_nat (concat (spec_rows (edge_set lines) (nodeCountForAllocation g)))"
    and "length (adj_offsets g) = Suc (nodeCountForAllocation g)"
    and "\<And>i. i \<le> nodeCountForAllocation g \<Longrightarrow>
           adj_offsets g ! i = of_nat (starts (spec_rows (edge_set lines) (nodeCountForAllocation g)) i)"
    and "length (concat (spec_rows (edge_set lines) (nodeCountForAllocation g))) \<le> 2 ^ 32 - 1"
proof -
  define n where "n = nodeCountForAllocation g"
  let ?E = "edge_set lines"
  have n1: "n = max_id (records lines) + 1"
    unfolding n_def by (rule processGraph_success(4) [OF run])
  then show "nodeCountForAllocation g = max_id (records lines) + 1" by (simp add: n_def)
  have "max_id (records lines) + 1 \<le> 2 ^ 32 - 1" by (rule processGraph_success(3) [OF run])
  then show "nodeCountForAllocation g \<le> 2 ^ 32 - 1" using n1 by (simp add: n_def)
  obtain st es where ing: "ingest lines = Inr (st, es)"
    and d: "distinct es" and inj: "inj_on unpack (set es)" and E: "unpack ` set es = ?E"
    and ori: "oriented es n = Inr (map (out_list (map (\<lambda>p. arc ?E (unpack p)) es)) [0 ..< n])"
    using oriented_success [OF run] unfolding n1 by blast
  define rows where "rows = map (out_list (map (\<lambda>p. arc ?E (unpack p)) es)) [0 ..< n]"
  obtain ec ids vc where st: "st = (ec, ids, max_id (records lines), vc)"
    using ingest_success(2) [OF ing] by blast
  have bg: "build_graph st es = Inr g" using run ing by (simp add: processGraph_def)
  have n2: "n = Suc (max_id (records lines))" using n1 by simp
  have ori': "oriented es (Suc (max_id (records lines))) = Inr rows"
    using ori by (simp only: rows_def n2)
  obtain offsets flat where csr': "build_csr rows (Suc (max_id (records lines))) = Inr (offsets, flat)"
    and g: "adj_offsets g = offsets" "adj_data g = map of_nat flat"
    using bg unfolding st build_graph_def
    by (auto simp: Let_def ori' split: sum.splits prod.splits)
  have csr: "build_csr rows n = Inr (offsets, flat)" using csr' by (simp only: n2)
  have lt: "fst e < snd e" if "e \<in> ?E" for e using edge_set_bounds(1) [OF that] .
  have rows: "map sort rows = spec_rows ?E n"
    unfolding spec_rows_def rows_def using sort_out_list [OF d inj E lt] by simp
  have len: "length rows = n" by (simp add: rows_def)
  show "adj_data g = map of_nat (concat (spec_rows ?E (nodeCountForAllocation g)))"
    using build_csr_success(1) [OF csr len] g rows by (simp add: n_def)
  show "length (adj_offsets g) = Suc (nodeCountForAllocation g)"
    using build_csr_success(2) [OF csr len] g by (simp add: n_def)
  show "length (concat (spec_rows ?E (nodeCountForAllocation g))) \<le> 2 ^ 32 - 1"
    using build_csr_success(4) [OF csr len] build_csr_success(1) [OF csr len] rows
    by (simp add: n_def)
  fix i assume "i \<le> nodeCountForAllocation g"
  then show "adj_offsets g ! i = of_nat (starts (spec_rows ?E (nodeCountForAllocation g)) i)"
    using build_csr_success(3) [OF csr len, of i] g rows by (simp add: n_def)
qed

subsection \<open>Rows of the compact representation\<close>

lemma starts_le_total: "starts rows i \<le> length (concat rows)"
proof (cases "i \<le> length rows")
  case True
  then have "starts rows i \<le> starts rows (length rows)" by (rule starts_mono)
  then show ?thesis by (simp add: starts_def)
next
  case False
  then show ?thesis by (simp add: starts_def)
qed

lemma concat_slice:
  assumes "i < length rows"
  shows "drop (starts rows i) (take (starts rows (Suc i)) (concat rows)) = rows ! i"
proof -
  have "rows = take i rows @ rows ! i # drop (Suc i) rows"
    using assms by (rule id_take_nth_drop)
  then have "concat rows = concat (take i rows) @ rows ! i @ concat (drop (Suc i) rows)"
    by (metis concat.simps(2) concat_append)
  then show ?thesis
    by (simp add: starts_Suc [OF assms]) (simp add: starts_def)
qed

lemma finite_out_nbrs: "finite E \<Longrightarrow> finite (out_nbrs E u)"
proof -
  assume "finite E"
  then have "finite (snd ` E \<union> fst ` E)" by simp
  moreover have "out_nbrs E u \<subseteq> snd ` E \<union> fst ` E"
    by (force simp: out_nbrs_def adjacent_def)
  ultimately show ?thesis by (rule rev_finite_subset)
qed

lemma spec_rows_nth:
  "u < n \<Longrightarrow> spec_rows E n ! u = sorted_list_of_set (out_nbrs E u)"
  by (simp add: spec_rows_def)

lemma length_spec_rows [simp]: "length (spec_rows E n) = n"
  by (simp add: spec_rows_def)

lemma offsets_unat:
  assumes run: "processGraph lines = Inr g" and i: "i \<le> nodeCountForAllocation g"
  shows "unat (adj_offsets g ! i) = starts (spec_rows (edge_set lines) (nodeCountForAllocation g)) i"
proof -
  let ?R = "spec_rows (edge_set lines) (nodeCountForAllocation g)"
  have "starts ?R i \<le> length (concat ?R)" by (rule starts_le_total)
  then have "starts ?R i < 2 ^ 32" using graph_structure(6) [OF run] by simp
  then show ?thesis using graph_structure(5) [OF run i] by (simp add: unat_of_nat_u32)
qed

lemma row_eq:
  assumes run: "processGraph lines = Inr g" and u: "u < nodeCountForAllocation g"
  shows "row_of g u = map of_nat (sorted_list_of_set (out_nbrs (edge_set lines) u))"
proof -
  let ?R = "spec_rows (edge_set lines) (nodeCountForAllocation g)"
  have s: "unat (adj_offsets g ! u) = starts ?R u" using run u by (intro offsets_unat) simp_all
  have e: "unat (adj_offsets g ! Suc u) = starts ?R (Suc u)"
    using run u by (intro offsets_unat) simp_all
  have "row_of g u = map of_nat (drop (starts ?R u) (take (starts ?R (Suc u)) (concat ?R)))"
    by (simp add: row_of_def slice_def s e graph_structure(3) [OF run] drop_map take_map)
  also have "drop (starts ?R u) (take (starts ?R (Suc u)) (concat ?R)) = ?R ! u"
    using u by (intro concat_slice) simp
  finally show ?thesis using u by (simp add: spec_rows_nth)
qed

lemma out_nbrs_bound:
  assumes run: "processGraph lines = Inr g" and v: "v \<in> out_nbrs (edge_set lines) u"
  shows "u < nodeCountForAllocation g" and "v < nodeCountForAllocation g"
proof -
  from v obtain e where e: "e \<in> edge_set lines" "e = (u, v) \<or> e = (v, u)"
    by (auto simp: out_nbrs_def adjacent_def)
  have "fst e < snd e" "snd e < nodeCountForAllocation g"
    using edge_set_bounds [OF e(1)] graph_structure(1) [OF run] by simp_all
  then show "u < nodeCountForAllocation g" and "v < nodeCountForAllocation g"
    using e(2) by auto
qed

lemma sigma_out_nbrs:
  assumes run: "processGraph lines = Inr g"
  shows "(SIGMA u : {0 ..< nodeCountForAllocation g}. out_nbrs (edge_set lines) u)
         = arc (edge_set lines) ` edge_set lines"
proof -
  let ?E = "edge_set lines"
  have ne: "fst e \<noteq> snd e" if "e \<in> ?E" for e using edge_set_bounds(1) [OF that] by simp
  have "(u, v) \<in> (SIGMA u : {0 ..< nodeCountForAllocation g}. out_nbrs ?E u)
        \<longleftrightarrow> (u, v) \<in> arc ?E ` ?E" for u v
    using arc_image_iff [of ?E u v] ne out_nbrs_bound(1) [OF run, of v u]
    by (auto simp: out_nbrs_def)
  then show ?thesis by (auto simp del: SigmaI mem_Sigma_iff) 
qed

lemma total_out_degree:
  assumes run: "processGraph lines = Inr g"
  shows "(\<Sum>u = 0 ..< nodeCountForAllocation g. card (out_nbrs (edge_set lines) u))
         = card (edge_set lines)"
proof -
  let ?E = "edge_set lines" and ?n = "nodeCountForAllocation g"
  have "(\<Sum>u = 0 ..< ?n. card (out_nbrs ?E u)) = card (SIGMA u : {0 ..< ?n}. out_nbrs ?E u)"
    using finite_out_nbrs [OF finite_edge_set] by simp
  also have "\<dots> = card (arc ?E ` ?E)" by (simp only: sigma_out_nbrs [OF run])
  also have "\<dots> = card ?E"
    by (rule card_image) (rule arc_inj, rule edge_set_bounds(1))
  finally show ?thesis .
qed

lemma length_concat_spec_rows:
  "finite E \<Longrightarrow> length (concat (spec_rows E n)) = (\<Sum>u = 0 ..< n. card (out_nbrs E u))"
proof -
  assume fin: "finite E"
  have "length (concat (spec_rows E n)) = sum_list (map (\<lambda>u. card (out_nbrs E u)) [0 ..< n])"
    using finite_out_nbrs [OF fin]
    by (simp add: spec_rows_def length_concat comp_def)
  also have "\<dots> = (\<Sum>u = 0 ..< n. card (out_nbrs E u))"
    by (simp add: interv_sum_list_conv_sum_set_nat)
  finally show ?thesis .
qed

lemma starts_spec_rows_Suc:
  "finite E \<Longrightarrow> i < n \<Longrightarrow>
   starts (spec_rows E n) (Suc i) = starts (spec_rows E n) i + card (out_nbrs E i)"
  using finite_out_nbrs [of E i] by (simp add: starts_Suc spec_rows_nth)

lemma run_triangle:
  "processGraph [''1 2'', ''2 3'', ''1 3''] =
     Inr \<lparr>adj_offsets = [0, 0, 2, 3, 3], adj_data = [2, 3, 3], nodeCountForAllocation = 4,
          officialNodeCount = 3, officialEdgeCount = 3\<rparr>"
  by code_simp

text \<open>
  Claim C4. In every run that returns a graph, with the edges and degrees of the graph of
  the input: node \<open>v\<close> is in the oriented adjacency list of \<open>u\<close> exactly when \<open>u\<close> and \<open>v\<close>
  are joined by an edge and \<open>u\<close> has the lower rank; no list holds a node twice; and two
  nodes are never in each other's list. So every edge is recorded once, under its
  lower-ranked endpoint.
\<close>

theorem orientation_by_rank:
  assumes run: "processGraph lines = Inr g"
  shows "\<exists>st uniquePackedEdges orientedAdj.
     ingest lines = Inr (st, uniquePackedEdges) \<and>
     oriented uniquePackedEdges (nodeCountForAllocation g) = Inr orientedAdj \<and>
     length orientedAdj = nodeCountForAllocation g \<and>
     (\<forall>u < nodeCountForAllocation g. distinct (orientedAdj ! u)) \<and>
     (\<forall>u v. u < nodeCountForAllocation g \<and> v \<in> set (orientedAdj ! u) \<longleftrightarrow>
            adjacent (edge_set lines) u v \<and> rank_less (edge_set lines) u v) \<and>
     (\<forall>u v. u < nodeCountForAllocation g \<and> v < nodeCountForAllocation g \<longrightarrow>
            \<not> (v \<in> set (orientedAdj ! u) \<and> u \<in> set (orientedAdj ! v)))"
proof -
  let ?E = "edge_set lines"
  define n where "n = nodeCountForAllocation g"
  have n1: "n = max_id (records lines) + 1" unfolding n_def by (rule graph_structure(1) [OF run])
  obtain st es where ing: "ingest lines = Inr (st, es)"
    and d: "distinct es" and inj: "inj_on unpack (set es)" and E: "unpack ` set es = ?E"
    and ori: "oriented es n = Inr (map (out_list (map (\<lambda>p. arc ?E (unpack p)) es)) [0 ..< n])"
    using oriented_success [OF run] unfolding n1 by blast
  define rows where "rows = map (out_list (map (\<lambda>p. arc ?E (unpack p)) es)) [0 ..< n]"
  have lt: "fst e < snd e" if "e \<in> ?E" for e using edge_set_bounds(1) [OF that] .
  have set_row: "set (rows ! u) = out_nbrs ?E u" if "u < n" for u
    using that out_list_props(1) [OF d inj E lt] by (simp add: rows_def)
  have dist_row: "distinct (rows ! u)" if "u < n" for u
    using that out_list_props(2) [OF d inj E lt] by (simp add: rows_def)
  have mem: "u < n \<and> v \<in> set (rows ! u) \<longleftrightarrow> adjacent ?E u v \<and> rank_less ?E u v" for u v
  proof
    assume "u < n \<and> v \<in> set (rows ! u)"
    then show "adjacent ?E u v \<and> rank_less ?E u v" using set_row by (auto simp: out_nbrs_def)
  next
    assume a: "adjacent ?E u v \<and> rank_less ?E u v"
    then have v: "v \<in> out_nbrs ?E u" by (simp add: out_nbrs_def)
    then have "u < n" using out_nbrs_bound(1) [OF run] by (simp add: n_def)
    then show "u < n \<and> v \<in> set (rows ! u)" using v set_row by simp
  qed
  have both: "\<not> (v \<in> set (rows ! u) \<and> u \<in> set (rows ! v))" if "u < n" "v < n" for u v
    using mem [of u v] mem [of v u] that rank_less_asym [of ?E u v] by blast
  have "oriented es n = Inr rows" using ori by (simp add: rows_def)
  moreover have "length rows = n" by (simp add: rows_def)
  ultimately show ?thesis
    using ing dist_row mem both unfolding n_def by blast
qed

theorem orientation_by_rank_witness:
  "\<exists>st uniquePackedEdges orientedAdj.
     ingest [''1 2'', ''2 3'', ''1 3''] = Inr (st, uniquePackedEdges) \<and>
     oriented uniquePackedEdges 4 = Inr orientedAdj \<and>
     length orientedAdj = 4 \<and>
     (\<forall>u < 4. distinct (orientedAdj ! u)) \<and>
     (\<forall>u v. u < 4 \<and> v \<in> set (orientedAdj ! u) \<longleftrightarrow>
            adjacent (edge_set [''1 2'', ''2 3'', ''1 3'']) u v \<and>
            rank_less (edge_set [''1 2'', ''2 3'', ''1 3'']) u v) \<and>
     (\<forall>u v. u < 4 \<and> v < 4 \<longrightarrow>
            \<not> (v \<in> set (orientedAdj ! u) \<and> u \<in> set (orientedAdj ! v)))"
  using orientation_by_rank [OF run_triangle] by simp

text \<open>
  Claim C5. In every run that returns a graph, the length of \<open>adj_data\<close>, the last offset
  and the sum of the row lengths all equal the number of edges of the input graph;
  \<open>adj_offsets\<close> has one entry more than there are node slots, is non-decreasing, and
  the difference of two consecutive offsets is the length of that row, which is the
  oriented out-degree of the node.
\<close>

theorem edge_conservation:
  assumes run: "processGraph lines = Inr g"
  shows "length (adj_data g) = card (edge_set lines) \<and>
     length (adj_offsets g) = nodeCountForAllocation g + 1 \<and>
     unat (adj_offsets g ! nodeCountForAllocation g) = card (edge_set lines) \<and>
     (\<Sum>i = 0 ..< nodeCountForAllocation g. length (row_of g i)) = card (edge_set lines) \<and>
     (\<forall>i < nodeCountForAllocation g.
        unat (adj_offsets g ! i) \<le> unat (adj_offsets g ! (i + 1)) \<and>
        unat (adj_offsets g ! (i + 1)) - unat (adj_offsets g ! i) = length (row_of g i) \<and>
        length (row_of g i) = card (out_nbrs (edge_set lines) i))"
proof -
  let ?E = "edge_set lines" and ?n = "nodeCountForAllocation g"
  let ?R = "spec_rows ?E ?n"
  have fin: "finite ?E" by (rule finite_edge_set)
  have total: "length (concat ?R) = card ?E"
    using length_concat_spec_rows [OF fin, of ?n] total_out_degree [OF run] by simp
  have a: "length (adj_data g) = card ?E" using graph_structure(3) [OF run] total by simp
  have b: "length (adj_offsets g) = ?n + 1" using graph_structure(4) [OF run] by simp
  have "unat (adj_offsets g ! ?n) = starts ?R ?n" using run by (intro offsets_unat) simp_all
  then have c: "unat (adj_offsets g ! ?n) = card ?E" using total by (simp add: starts_def)
  have len: "length (row_of g i) = card (out_nbrs ?E i)" if "i < ?n" for i
    using row_eq [OF run that] finite_out_nbrs [OF fin, of i] by simp
  have "(\<Sum>i = 0 ..< ?n. length (row_of g i)) = (\<Sum>i = 0 ..< ?n. card (out_nbrs ?E i))"
    using len by (intro sum.cong) simp_all
  then have s: "(\<Sum>i = 0 ..< ?n. length (row_of g i)) = card ?E"
    using total_out_degree [OF run] by simp
  have d: "unat (adj_offsets g ! i) \<le> unat (adj_offsets g ! (i + 1)) \<and>
        unat (adj_offsets g ! (i + 1)) - unat (adj_offsets g ! i) = length (row_of g i) \<and>
        length (row_of g i) = card (out_nbrs ?E i)" if "i < ?n" for i
  proof -
    have s0: "unat (adj_offsets g ! i) = starts ?R i"
      using run that by (intro offsets_unat) simp_all
    have s1: "unat (adj_offsets g ! Suc i) = starts ?R (Suc i)"
      using offsets_unat [OF run, of "Suc i"] that by simp
    show ?thesis
      using starts_spec_rows_Suc [OF fin that] len [OF that] by (simp add: s0 s1)
  qed
  show ?thesis using a b c s d by blast
qed

theorem edge_conservation_witness:
  "length [2, 3, 3 :: u32] = card (edge_set [''1 2'', ''2 3'', ''1 3'']) \<and>
   unat ([0, 0, 2, 3, 3 :: u32] ! 4) = card (edge_set [''1 2'', ''2 3'', ''1 3''])"
  using edge_conservation [OF run_triangle] by simp

text \<open>
  Claim C6. In every run that returns a graph, every row of the compact representation is
  strictly ascending (in the unsigned order of \<open>u32\<close>).
\<close>

theorem rows_strictly_ascending:
  assumes run: "processGraph lines = Inr g" and u: "u < nodeCountForAllocation g"
  shows "sorted_wrt (<) (row_of g u)"
proof -
  let ?xs = "sorted_list_of_set (out_nbrs (edge_set lines) u)"
  have fin: "finite (out_nbrs (edge_set lines) u)"
    using finite_edge_set by (rule finite_out_nbrs)
  have small: "x < 2 ^ 32" if "x \<in> set ?xs" for x
  proof -
    have "x \<in> out_nbrs (edge_set lines) u" using that fin by simp
    then have "x < nodeCountForAllocation g" by (rule out_nbrs_bound(2) [OF run])
    then show ?thesis using graph_structure(2) [OF run] by simp
  qed
  have "sorted_wrt (<) ?xs" by simp
  then have "sorted_wrt (\<lambda>x y. (of_nat x :: u32) < of_nat y) ?xs"
  proof (rule sorted_wrt_mono_rel [rotated])
    fix x y assume "x \<in> set ?xs" "y \<in> set ?xs" "x < y"
    then show "(of_nat x :: u32) < of_nat y"
      using small [of x] small [of y] by (simp add: unat_of_nat_less_iff)
  qed
  then show ?thesis by (simp add: row_eq [OF run u] sorted_wrt_map)
qed

theorem rows_strictly_ascending_witness:
  "sorted_wrt (<) (row_of \<lparr>adj_offsets = [0, 0, 2, 3, 3], adj_data = [2, 3, 3],
      nodeCountForAllocation = 4, officialNodeCount = 3, officialEdgeCount = 3\<rparr> 1)"
  using rows_strictly_ascending [OF run_triangle, of 1] by simp

subsection \<open>One invocation of the kernel\<close>

lemma count_intersection_value:
  assumes "unat u_end \<le> length adj" and "unat v_end \<le> length adj"
    and "sorted_wrt (<) (slice adj u_start u_end)" and "sorted_wrt (<) (slice adj v_start v_end)"
  shows "count_intersection adj u_start u_end v_start v_end =
           Inr (of_nat (card (set (slice adj u_start u_end) \<inter> set (slice adj v_start v_end))))"
proof -
  let ?xs = "slice adj u_start u_end" and ?ys = "slice adj v_start v_end"
  have s: "sorted ?xs" "sorted ?ys" "distinct ?xs" "distinct ?ys"
    using assms(3,4) by (simp_all add: strict_sorted_iff)
  have "count_intersection adj u_start u_end v_start v_end
        = Inr (of_nat (size (mset ?xs \<inter># mset ?ys)))"
    using loop_correct [OF assms(1,2) s(1,2), of 0] by (simp add: count_intersection_def)
  then show ?thesis using inter_distinct_card [OF s(3,4)] by simp
qed

lemma main_loop_sum:
  assumes "unat e \<le> length adj"
    and "\<And>v. v \<in> set (slice adj i e) \<Longrightarrow>
           load offs v = Inr (a v) \<and> load offs (v + 1) = Inr (b v) \<and>
           count_intersection adj s e (a v) (b v) = Inr (f v)"
  shows "main_loop offs adj s e tc i = Inr (tc + sum_list (map f (slice adj i e)))"
  using assms
proof (induction offs adj s e tc i rule: main_loop.induct)
  case (1 offs adj s e tc i)
  show ?case
  proof (cases "i < e")
    case False
    then show ?thesis by (subst main_loop.simps) (simp add: slice_Nil)
  next
    case True
    let ?v = "adj ! unat i"
    have sl: "slice adj i e = ?v # slice adj (i + 1) e" using True "1.prems"(1) by (rule slice_Cons)
    have lv: "load adj i = Inr ?v" using True "1.prems"(1) by (rule load_in)
    have v: "load offs ?v = Inr (a ?v)" "load offs (?v + 1) = Inr (b ?v)"
      "count_intersection adj s e (a ?v) (b ?v) = Inr (f ?v)"
      using "1.prems"(2) [of ?v] sl by simp_all
    have rest: "\<And>w. w \<in> set (slice adj (i + 1) e) \<Longrightarrow>
           load offs w = Inr (a w) \<and> load offs (w + 1) = Inr (b w) \<and>
           count_intersection adj s e (a w) (b w) = Inr (f w)"
      using "1.prems"(2) sl by simp
    have "main_loop offs adj s e (if 0 < f ?v then tc + f ?v else tc) (i + 1)
          = Inr ((if 0 < f ?v then tc + f ?v else tc) + sum_list (map f (slice adj (i + 1) e)))"
      using "1.IH" [OF True lv v(1) v(2) v(3) "1.prems"(1) rest] .
    moreover have "(if 0 < f ?v then tc + f ?v else tc) = tc + f ?v"
      by (simp add: word_greater_zero_iff)
    ultimately show ?thesis
      using True lv v by (subst main_loop.simps) (simp add: sl add.assoc)
  qed
qed

lemma row_strict:
  assumes run: "processGraph lines = Inr g" and u: "u < nodeCountForAllocation g"
  shows "sorted_wrt (<) (row_of g u)"
proof -
  let ?xs = "sorted_list_of_set (out_nbrs (edge_set lines) u)"
  have fin: "finite (out_nbrs (edge_set lines) u)"
    using finite_edge_set by (rule finite_out_nbrs)
  have small: "x < 2 ^ 32" if "x \<in> set ?xs" for x
  proof -
    have "x \<in> out_nbrs (edge_set lines) u" using that fin by simp
    then have "x < nodeCountForAllocation g" by (rule out_nbrs_bound(2) [OF run])
    then show ?thesis using graph_structure(2) [OF run] by simp
  qed
  have "sorted_wrt (<) ?xs" by simp
  then have "sorted_wrt (\<lambda>x y. (of_nat x :: u32) < of_nat y) ?xs"
  proof (rule sorted_wrt_mono_rel [rotated])
    fix x y assume "x \<in> set ?xs" "y \<in> set ?xs" "x < y"
    then show "(of_nat x :: u32) < of_nat y"
      using small [of x] small [of y] by (simp add: unat_of_nat_less_iff)
  qed
  then show ?thesis by (simp add: row_eq [OF run u] sorted_wrt_map)
qed

lemma set_row_of:
  assumes run: "processGraph lines = Inr g" and u: "u < nodeCountForAllocation g"
  shows "set (row_of g u) = of_nat ` out_nbrs (edge_set lines) u"
  using row_eq [OF run u] finite_out_nbrs [OF finite_edge_set, of lines u] by simp

lemma inj_on_of_nat_u32: "(\<And>x. x \<in> A \<Longrightarrow> x < 2 ^ 32) \<Longrightarrow> inj_on (of_nat :: nat \<Rightarrow> u32) A"
  by (rule inj_onI) (metis unat_of_nat_u32)

lemma common_card:
  assumes run: "processGraph lines = Inr g"
    and u: "u < nodeCountForAllocation g" and v: "v < nodeCountForAllocation g"
  shows "card (set (row_of g u) \<inter> set (row_of g v))
         = card (out_nbrs (edge_set lines) u \<inter> out_nbrs (edge_set lines) v)"
proof -
  let ?A = "out_nbrs (edge_set lines) u" and ?B = "out_nbrs (edge_set lines) v"
  have small: "x < 2 ^ 32" if "x \<in> ?A \<union> ?B" for x
  proof -
    have "x < nodeCountForAllocation g" using that out_nbrs_bound(2) [OF run] by blast
    then show ?thesis using graph_structure(2) [OF run] by simp
  qed
  have inj: "inj_on (of_nat :: nat \<Rightarrow> u32) (?A \<union> ?B)" using small by (rule inj_on_of_nat_u32)
  have "set (row_of g u) \<inter> set (row_of g v) = (of_nat :: nat \<Rightarrow> u32) ` (?A \<inter> ?B)"
    using inj by (simp add: set_row_of [OF run] u v inj_on_image_Int [of _ "?A \<union> ?B"])
  moreover have "inj_on (of_nat :: nat \<Rightarrow> u32) (?A \<inter> ?B)"
    by (rule inj_on_subset [OF inj]) blast
  ultimately show ?thesis by (simp add: card_image)
qed

lemma of_nat_sum_list_u32: "(of_nat (sum_list (map f xs)) :: u32) = sum_list (map (\<lambda>x. of_nat (f x)) xs)"
  by (induction xs) simp_all

lemma offsets_in_bounds:
  assumes run: "processGraph lines = Inr g" and i: "i \<le> nodeCountForAllocation g"
  shows "unat (adj_offsets g ! i) \<le> length (adj_data g)"
proof -
  have "unat (adj_offsets g ! i) = starts (spec_rows (edge_set lines) (nodeCountForAllocation g)) i"
    using run i by (rule offsets_unat)
  also have "\<dots> \<le> length (concat (spec_rows (edge_set lines) (nodeCountForAllocation g)))"
    by (rule starts_le_total)
  finally show ?thesis by (simp add: graph_structure(3) [OF run])
qed

lemma load_offsets:
  assumes run: "processGraph lines = Inr g" and i: "i \<le> nodeCountForAllocation g"
  shows "load (adj_offsets g) (of_nat i) = Inr (adj_offsets g ! i)"
proof -
  have "i < 2 ^ 32" using i graph_structure(2) [OF run] by simp
  then have "unat (of_nat i :: u32) = i" by (rule unat_of_nat_u32)
  then show ?thesis using i graph_structure(4) [OF run] by (simp add: load_def)
qed

lemma main_at_node:
  assumes run: "processGraph lines = Inr g" and u: "u < nodeCountForAllocation g"
  shows "main (adj_offsets g) (adj_data g) tc (of_nat u) = Inr (tc + of_nat (found_at (edge_set lines) u))"
proof -
  let ?n = "nodeCountForAllocation g" and ?E = "edge_set lines"
  let ?offs = "adj_offsets g" and ?adj = "adj_data g"
  have n: "?n \<le> 2 ^ 32 - 1" by (rule graph_structure(2) [OF run])
  have "arrayLength ?offs - 1 = of_nat ?n"
    by (simp add: arrayLength_def graph_structure(4) [OF run])
  moreover have "\<not> (of_nat ?n :: u32) \<le> of_nat u"
    using u n by (simp add: word_le_nat_alt unat_of_nat_u32)
  ultimately have guard: "\<not> arrayLength ?offs - 1 \<le> (of_nat u :: u32)" by simp
  have l0: "load ?offs (of_nat u) = Inr (?offs ! u)" using run u by (intro load_offsets) simp_all
  have l1: "load ?offs (of_nat u + 1) = Inr (?offs ! (u + 1))"
    using load_offsets [OF run, of "u + 1"] u by (simp add: add.commute)
  have sl: "slice ?adj (?offs ! u) (?offs ! (u + 1)) = row_of g u" by (simp add: row_of_def)
  have e_in: "unat (?offs ! (u + 1)) \<le> length ?adj" using run u by (intro offsets_in_bounds) simp_all
  have each: "load ?offs v = Inr (?offs ! unat v) \<and> load ?offs (v + 1) = Inr (?offs ! (unat v + 1)) \<and>
     count_intersection ?adj (?offs ! u) (?offs ! (u + 1)) (?offs ! unat v) (?offs ! (unat v + 1))
       = Inr (of_nat (card (out_nbrs ?E u \<inter> out_nbrs ?E (unat v))))"
    if "v \<in> set (slice ?adj (?offs ! u) (?offs ! (u + 1)))" for v
  proof -
    from that obtain x where x: "x \<in> out_nbrs ?E u" "v = of_nat x"
      using set_row_of [OF run u] sl by auto
    have xn: "x < ?n" using x(1) by (rule out_nbrs_bound(2) [OF run])
    then have ux: "unat v = x" using x(2) n by (simp add: unat_of_nat_u32)
    have a: "load ?offs v = Inr (?offs ! unat v)"
      using load_offsets [OF run, of x] xn x(2) ux by simp
    have b: "load ?offs (v + 1) = Inr (?offs ! (unat v + 1))"
      using load_offsets [OF run, of "x + 1"] xn x(2) ux by (simp add: add.commute)
    have "unat (?offs ! (x + 1)) \<le> length ?adj" using run xn by (intro offsets_in_bounds) simp_all
    then have "count_intersection ?adj (?offs ! u) (?offs ! (u + 1)) (?offs ! x) (?offs ! (x + 1))
       = Inr (of_nat (card (set (row_of g u) \<inter> set (row_of g x))))"
      using count_intersection_value [OF e_in, of "?offs ! (x + 1)" "?offs ! u" "?offs ! x"]
        row_strict [OF run u] row_strict [OF run xn]
      by (simp add: row_of_def)
    then show ?thesis using a b ux common_card [OF run u xn] by simp
  qed
  have "main_loop ?offs ?adj (?offs ! u) (?offs ! (u + 1)) tc (?offs ! u)
        = Inr (tc + sum_list (map (\<lambda>v. of_nat (card (out_nbrs ?E u \<inter> out_nbrs ?E (unat v))))
                          (slice ?adj (?offs ! u) (?offs ! (u + 1)))))"
    using e_in each by (rule main_loop_sum)
  also have "sum_list (map (\<lambda>v. of_nat (card (out_nbrs ?E u \<inter> out_nbrs ?E (unat v))) :: u32)
                          (slice ?adj (?offs ! u) (?offs ! (u + 1))))
             = of_nat (found_at ?E u)"
  proof -
    let ?xs = "sorted_list_of_set (out_nbrs ?E u)"
    have fin: "finite (out_nbrs ?E u)" using finite_edge_set by (rule finite_out_nbrs)
    have un: "unat (of_nat x :: u32) = x" if "x \<in> set ?xs" for x
    proof -
      have "x < ?n" using that fin out_nbrs_bound(2) [OF run, of x u] by simp
      then show ?thesis using n by (simp add: unat_of_nat_u32)
    qed
    have "map (\<lambda>v. of_nat (card (out_nbrs ?E u \<inter> out_nbrs ?E (unat v))) :: u32) (row_of g u)
          = map (\<lambda>x. of_nat (card (out_nbrs ?E u \<inter> out_nbrs ?E x))) ?xs"
      using un by (simp add: row_eq [OF run u])
    then have "sum_list (map (\<lambda>v. of_nat (card (out_nbrs ?E u \<inter> out_nbrs ?E (unat v))) :: u32) (row_of g u))
          = of_nat (sum_list (map (\<lambda>x. card (out_nbrs ?E u \<inter> out_nbrs ?E x)) ?xs))"
      by (simp add: of_nat_sum_list_u32)
    also have "sum_list (map (\<lambda>x. card (out_nbrs ?E u \<inter> out_nbrs ?E x)) ?xs) = found_at ?E u"
      using fin by (simp add: sum_list_distinct_conv_sum_set found_at_def)
    finally show ?thesis by (simp only: sl)
  qed
  finally show ?thesis using guard l0 l1 by (simp add: main_def Let_def)
qed

subsection \<open>The dispatch\<close>

lemma for_each_unchanged:
  "(\<And>s x. x \<in> set xs \<Longrightarrow> body s x = Inr s) \<Longrightarrow> for_each body xs s = Inr s"
  by (induction xs arbitrary: s) simp_all

lemma main_beyond_nodes:
  assumes run: "processGraph lines = Inr g"
    and lo: "nodeCountForAllocation g \<le> gid" and hi: "gid < 2 ^ 32"
  shows "main (adj_offsets g) (adj_data g) tc (of_nat gid) = Inr tc"
proof -
  have n: "nodeCountForAllocation g < 2 ^ 32" using graph_structure(2) [OF run] by simp
  have "arrayLength (adj_offsets g) - 1 = of_nat (nodeCountForAllocation g)"
    by (simp add: arrayLength_def graph_structure(4) [OF run])
  moreover have "(of_nat (nodeCountForAllocation g) :: u32) \<le> of_nat gid"
    using lo hi n by (simp add: word_le_nat_alt unat_of_nat_u32)
  ultimately show ?thesis by (simp add: main_def)
qed

lemma dispatch_nodes:
  assumes run: "processGraph lines = Inr g"
  shows "k \<le> nodeCountForAllocation g \<Longrightarrow>
    for_each (\<lambda>tc gid. main (adj_offsets g) (adj_data g) tc (of_nat gid)) [0 ..< k] tc
      = Inr (tc + of_nat (\<Sum>u = 0 ..< k. found_at (edge_set lines) u))"
proof (induction k)
  case 0
  show ?case by simp
next
  case (Suc k)
  then have k: "k < nodeCountForAllocation g" by simp
  have "for_each (\<lambda>tc gid. main (adj_offsets g) (adj_data g) tc (of_nat gid)) [0 ..< k] tc
      = Inr (tc + of_nat (\<Sum>u = 0 ..< k. found_at (edge_set lines) u))"
    using Suc by simp
  then show ?case
    by (simp add: for_each_append main_at_node [OF run k] add.assoc)
qed

lemma workgroups_cover: "n \<le> (n + 255) div 256 * 256" for n :: nat
  by arith

lemma workgroups_bound: "n \<le> 2 ^ 32 - 1 \<Longrightarrow> (n + 255) div 256 * 256 \<le> 2 ^ 32" for n :: nat
  by simp

lemma dispatch_eq:
  assumes run: "processGraph lines = Inr g"
  shows "dispatch g =
     Inr (of_nat (\<Sum>u = 0 ..< nodeCountForAllocation g. found_at (edge_set lines) u))"
proof -
  let ?n = "nodeCountForAllocation g"
  let ?m = "(?n + 255) div 256 * 256"
  let ?body = "\<lambda>tc gid. main (adj_offsets g) (adj_data g) tc (of_nat gid)"
  have nm: "?n \<le> ?m" by (rule workgroups_cover)
  have m: "?m \<le> 2 ^ 32" using graph_structure(2) [OF run] by (rule workgroups_bound)
  have "[0 ..< ?m] = [0 ..< ?n] @ [?n ..< ?m]"
    using upt_add_eq_append [of 0 ?n "?m - ?n"] nm by simp
  then have "for_each ?body [0 ..< ?m] 0 =
      (case for_each ?body [0 ..< ?n] 0 of Inl e \<Rightarrow> Inl e | Inr s \<Rightarrow> for_each ?body [?n ..< ?m] s)"
    by (simp only: for_each_append)
  moreover have "for_each ?body [0 ..< ?n] 0
      = Inr (0 + of_nat (\<Sum>u = 0 ..< ?n. found_at (edge_set lines) u))"
    using run by (rule dispatch_nodes) simp
  moreover have "for_each ?body [?n ..< ?m] s = Inr s" for s
  proof (rule for_each_unchanged)
    fix tc gid assume "gid \<in> set [?n ..< ?m]"
    then have "?n \<le> gid" "gid < 2 ^ 32" using m by auto
    then show "?body tc gid = Inr tc" by (rule main_beyond_nodes [OF run])
  qed
  ultimately show ?thesis by (simp add: dispatch_def Let_def)
qed

subsection \<open>Triangles and rank-ordered triples\<close>

lemma adjacent_sym: "adjacent E u v \<Longrightarrow> adjacent E v u"
  by (auto simp: adjacent_def)

lemma chain_unique:
  assumes c1: "rank_less E u v" "rank_less E v w"
    and c2: "rank_less E u' v'" "rank_less E v' w'"
    and eq: "{u, v, w} = {u', v', w'}"
  shows "u = u' \<and> v = v' \<and> w = w'"
proof -
  have uw: "rank_less E u w" using c1 by (rule rank_less_trans)
  have uw': "rank_less E u' w'" using c2 by (rule rank_less_trans)
  have m1: "u' = u \<or> u' = v \<or> u' = w" using eq by blast
  have m2: "u = u' \<or> u = v' \<or> u = w'" using eq by blast
  have m3: "w' = u \<or> w' = v \<or> w' = w" using eq by blast
  have m4: "w = u' \<or> w = v' \<or> w = w'" using eq by blast
  have e: "v' = u \<or> v' = v \<or> v' = w" using eq by blast
  have a: "u' = u \<or> rank_less E u u'" using m1 c1(1) uw by blast
  have b: "u = u' \<or> rank_less E u' u" using m2 c2(1) uw' by blast
  have c: "w' = w \<or> rank_less E w' w" using m3 c1(2) uw by blast
  have d: "w = w' \<or> rank_less E w w'" using m4 c2(2) uw' by blast
  have u: "u = u'" using a b rank_less_asym [of E u u'] by blast
  have w: "w = w'" using c d rank_less_asym [of E w w'] by blast
  have "v' \<noteq> u" using c2(1) u rank_less_irrefl [of E u] by auto
  moreover have "v' \<noteq> w" using c2(2) w rank_less_irrefl [of E w] by auto
  ultimately show ?thesis using e u w by simp
qed

lemma chain_exists:
  assumes "a \<noteq> b" "b \<noteq> c" "a \<noteq> c"
  shows "\<exists>x y z. {x, y, z} = {a, b, c} \<and> rank_less E x y \<and> rank_less E y z"
proof -
  have ab: "rank_less E a b \<or> rank_less E b a" using assms(1) by (rule rank_less_total)
  have bc: "rank_less E b c \<or> rank_less E c b" using assms(2) by (rule rank_less_total)
  have ac: "rank_less E a c \<or> rank_less E c a" using assms(3) by (rule rank_less_total)
  consider (abc) "rank_less E a b" "rank_less E b c"
    | (acb) "rank_less E a c" "rank_less E c b"
    | (cab) "rank_less E c a" "rank_less E a b"
    | (bac) "rank_less E b a" "rank_less E a c"
    | (bca) "rank_less E b c" "rank_less E c a"
    | (cba) "rank_less E c b" "rank_less E b a"
    using ab bc ac by blast
  then show ?thesis
  proof cases
    case abc
    then show ?thesis by blast
  next
    case acb
    have "{a, c, b} = {a, b, c}" by blast
    with acb show ?thesis by blast
  next
    case cab
    have "{c, a, b} = {a, b, c}" by blast
    with cab show ?thesis by blast
  next
    case bac
    have "{b, a, c} = {a, b, c}" by blast
    with bac show ?thesis by blast
  next
    case bca
    have "{b, c, a} = {a, b, c}" by blast
    with bca show ?thesis by blast
  next
    case cba
    have "{c, b, a} = {a, b, c}" by blast
    with cba show ?thesis by blast
  qed
qed

lemma chains_bij: "bij_betw triangle_of (chains E) (cliques3 E)"
  unfolding bij_betw_def
proof
  show "inj_on triangle_of (chains E)"
  proof (rule inj_onI)
    fix d d' assume d: "d \<in> chains E" and d': "d' \<in> chains E"
      and eq: "triangle_of d = triangle_of d'"
    obtain u v w where dd: "d = ((u, v), w)" by (metis surj_pair)
    obtain u' v' w' where dd': "d' = ((u', v'), w')" by (metis surj_pair)
    have "rank_less E u v" "rank_less E v w" "rank_less E u' v'" "rank_less E v' w'"
      using d d' by (simp_all add: chains_def out_nbrs_def dd dd')
    moreover have "{u, v, w} = {u', v', w'}" using eq by (simp add: triangle_of_def dd dd')
    ultimately have "u = u' \<and> v = v' \<and> w = w'" by (rule chain_unique)
    then show "d = d'" by (simp add: dd dd')
  qed
  show "triangle_of ` chains E = cliques3 E"
  proof (intro set_eqI iffI)
    fix T assume "T \<in> triangle_of ` chains E"
    then obtain d where dc: "d \<in> chains E" and dT: "T = triangle_of d" by blast
    obtain u v w where dd: "d = ((u, v), w)" by (metis surj_pair)
    have c: "((u, v), w) \<in> chains E" using dc by (simp only: dd)
    have T: "T = {u, v, w}" using dT by (simp add: dd triangle_of_def)
    have r: "rank_less E u v" "rank_less E v w" "rank_less E u w"
      and a: "adjacent E u v" "adjacent E v w" "adjacent E u w"
      using c by (simp_all add: chains_def out_nbrs_def)
    have ne: "u \<noteq> v" "v \<noteq> w" "u \<noteq> w" using r rank_less_irrefl [of E] by auto
    then have "card T = 3" by (simp add: T)
    moreover have "\<forall>x \<in> T. \<forall>y \<in> T. x \<noteq> y \<longrightarrow> adjacent E x y"
      unfolding T
      using a adjacent_sym [OF a(1)] adjacent_sym [OF a(2)] adjacent_sym [OF a(3)] by blast
    ultimately show "T \<in> cliques3 E" by (simp add: cliques3_def)
  next
    fix T assume "T \<in> cliques3 E"
    then have c3: "card T = 3" and adj: "\<And>x y. x \<in> T \<Longrightarrow> y \<in> T \<Longrightarrow> x \<noteq> y \<Longrightarrow> adjacent E x y"
      by (auto simp: cliques3_def)
    from c3 obtain a b c where T: "T = {a, b, c}" and ne: "a \<noteq> b" "b \<noteq> c" "a \<noteq> c"
      by (auto simp: card_3_iff)
    obtain x y z where s: "{x, y, z} = {a, b, c}" and r: "rank_less E x y" "rank_less E y z"
      by atomize_elim (rule chain_exists [OF ne])
    have rz: "rank_less E x z" using r by (rule rank_less_trans)
    have d: "x \<noteq> y" "y \<noteq> z" "x \<noteq> z" using r rz rank_less_irrefl [of E] by auto
    have Tx: "T = {x, y, z}" by (simp only: s T)
    have m: "x \<in> T" "y \<in> T" "z \<in> T" by (simp_all add: Tx)
    have "((x, y), z) \<in> chains E"
      using r rz adj [OF m(1,2) d(1)] adj [OF m(2,3) d(2)] adj [OF m(1,3) d(3)]
      by (simp add: chains_def out_nbrs_def)
    moreover have "triangle_of ((x, y), z) = T" by (simp add: triangle_of_def Tx)
    ultimately show "T \<in> triangle_of ` chains E" by (metis image_eqI)
  qed
qed

lemma card_chains:
  assumes fin: "finite E" and b: "\<And>u v. v \<in> out_nbrs E u \<Longrightarrow> u < n"
  shows "card (chains E) = (\<Sum>u = 0 ..< n. found_at E u)"
proof -
  let ?A = "SIGMA u : {0 ..< n}. out_nbrs E u"
  have fo: "finite (out_nbrs E u)" for u using fin by (rule finite_out_nbrs)
  have "chains E = (SIGMA a : ?A. out_nbrs E (fst a) \<inter> out_nbrs E (snd a))"
  proof (rule set_eqI)
    fix d :: "(nat \<times> nat) \<times> nat"
    obtain u v w where d: "d = ((u, v), w)" by (metis surj_pair)
    show "d \<in> chains E \<longleftrightarrow> d \<in> (SIGMA a : ?A. out_nbrs E (fst a) \<inter> out_nbrs E (snd a))"
      using b [of v u] by (auto simp: chains_def d)
  qed
  then have "card (chains E) = (\<Sum>a \<in> ?A. card (out_nbrs E (fst a) \<inter> out_nbrs E (snd a)))"
    using fo by simp
  also have "\<dots> = (\<Sum>u = 0 ..< n. \<Sum>v \<in> out_nbrs E u. card (out_nbrs E u \<inter> out_nbrs E v))"
    using fo by (simp add: sum.Sigma split_def)
  finally show ?thesis by (simp add: found_at_def)
qed

lemma neighbours_eq:
  assumes run: "processGraph lines = Inr g" and u: "u < nodeCountForAllocation g"
  shows "neighbours g u = out_nbrs (edge_set lines) u"
proof -
  have "unat (of_nat x :: u32) = x" if "x \<in> out_nbrs (edge_set lines) u" for x
  proof -
    have "x < nodeCountForAllocation g" using that by (rule out_nbrs_bound(2) [OF run])
    then show ?thesis using graph_structure(2) [OF run] by (simp add: unat_of_nat_u32)
  qed
  then show ?thesis
    by (simp add: neighbours_def set_row_of [OF run u] image_image)
qed

lemma detections_eq:
  assumes run: "processGraph lines = Inr g"
  shows "detections g = chains (edge_set lines)"
proof -
  have iff: "((u, v), w) \<in> detections g \<longleftrightarrow> ((u, v), w) \<in> chains (edge_set lines)" for u v w
  proof
    assume d: "((u, v), w) \<in> detections g"
    then have u: "u < nodeCountForAllocation g" by (simp add: detections_def)
    then have v: "v \<in> out_nbrs (edge_set lines) u" and w: "w \<in> out_nbrs (edge_set lines) u"
      using d neighbours_eq [OF run u] by (simp_all add: detections_def)
    have "v < nodeCountForAllocation g" using v by (rule out_nbrs_bound(2) [OF run])
    then have "w \<in> out_nbrs (edge_set lines) v"
      using d neighbours_eq [OF run, of v] by (simp add: detections_def)
    with v w show "((u, v), w) \<in> chains (edge_set lines)" by (simp add: chains_def)
  next
    assume c: "((u, v), w) \<in> chains (edge_set lines)"
    then have v: "v \<in> out_nbrs (edge_set lines) u" and w: "w \<in> out_nbrs (edge_set lines) u"
      and vw: "w \<in> out_nbrs (edge_set lines) v"
      by (simp_all add: chains_def)
    have "u < nodeCountForAllocation g" "v < nodeCountForAllocation g"
      using out_nbrs_bound [OF run v] by simp_all
    then show "((u, v), w) \<in> detections g"
      using v w vw neighbours_eq [OF run] by (simp add: detections_def)
  qed
  show ?thesis
  proof (rule set_eqI)
    fix d :: "(nat \<times> nat) \<times> nat"
    obtain u v w where d: "d = ((u, v), w)" by (metis surj_pair)
    show "d \<in> detections g \<longleftrightarrow> d \<in> chains (edge_set lines)"
      unfolding d by (rule iff)
  qed
qed

lemma kernel_counts_cliques:
  assumes run: "processGraph lines = Inr g"
  shows "dispatch g = Inr (of_nat (card (cliques3 (edge_set lines))))"
    and "card (detections g) = card (cliques3 (edge_set lines))"
    and "bij_betw triangle_of (detections g) (cliques3 (edge_set lines))"
proof -
  let ?E = "edge_set lines"
  show b: "bij_betw triangle_of (detections g) (cliques3 ?E)"
    using chains_bij [of ?E] by (simp add: detections_eq [OF run])
  then show c: "card (detections g) = card (cliques3 ?E)" by (rule bij_betw_same_card)
  have "(\<Sum>u = 0 ..< nodeCountForAllocation g. found_at ?E u) = card (chains ?E)"
    using finite_edge_set out_nbrs_bound(1) [OF run] by (rule card_chains [symmetric])
  also have "\<dots> = card (cliques3 ?E)" using c by (simp only: detections_eq [OF run])
  finally show "dispatch g = Inr (of_nat (card (cliques3 ?E)))"
    using dispatch_eq [OF run] by (simp only:)
qed

lemma card_edge_set:
  assumes run: "processGraph lines = Inr g"
  shows "card (edge_set lines) = length (adj_data g)"
proof -
  have "length (concat (spec_rows (edge_set lines) (nodeCountForAllocation g))) = card (edge_set lines)"
    using length_concat_spec_rows [OF finite_edge_set, of lines "nodeCountForAllocation g"]
      total_out_degree [OF run] by simp
  then show ?thesis using graph_structure(3) [OF run] by simp
qed

lemma cliques3_bound: "finite E \<Longrightarrow> card (cliques3 E) \<le> 2 ^ (2 * card E)"
proof -
  assume fin: "finite E"
  let ?V = "fst ` E \<union> snd ` E"
  have "cliques3 E \<subseteq> Pow ?V"
  proof
    fix T assume T: "T \<in> cliques3 E"
    then have c3: "card T = 3" and adj: "\<And>x y. x \<in> T \<Longrightarrow> y \<in> T \<Longrightarrow> x \<noteq> y \<Longrightarrow> adjacent E x y"
      by (auto simp: cliques3_def)
    have "x \<in> ?V" if x: "x \<in> T" for x
    proof -
      have "\<exists>y \<in> T. y \<noteq> x"
      proof (rule ccontr)
        assume "\<not> (\<exists>y \<in> T. y \<noteq> x)"
        then have "T = {x}" using x by blast
        then show False using c3 by simp
      qed
      then obtain y where "y \<in> T" "y \<noteq> x" by blast
      then have "adjacent E x y" using adj [OF x] by blast
      then show ?thesis by (force simp: adjacent_def)
    qed
    then show "T \<in> Pow ?V" by blast
  qed
  moreover have fv: "finite ?V" using fin by simp
  ultimately have "card (cliques3 E) \<le> card (Pow ?V)" by (intro card_mono) simp_all
  also have "\<dots> = 2 ^ card ?V" using fv by (rule card_Pow)
  also have "\<dots> \<le> 2 ^ (2 * card E)"
  proof -
    have "card ?V \<le> card (fst ` E) + card (snd ` E)" by (rule card_Un_le)
    also have "\<dots> \<le> card E + card E" using fin by (intro add_mono card_image_le)
    finally show ?thesis by simp
  qed
  finally show ?thesis .
qed

lemma triangleCount_eq:
  assumes run: "processGraph lines = Inr g"
  shows "triangleCount lines = Inr (card (cliques3 (edge_set lines)) mod 2 ^ 32)"
  using kernel_counts_cliques(1) [OF run] run
  by (simp add: triangleCount_def unat_of_nat take_bit_eq_mod)

lemma run_triangle_count: "triangleCount [''1 2'', ''2 3'', ''1 3''] = Inr 1"
  by code_simp

text \<open>
  Claim C10. In every run that returns a graph, the dispatch reads no buffer out of bounds,
  and the counter it leaves is the number of triangles of the input graph modulo
  \<open>2^32\<close>.
\<close>

theorem counter_wraps:
  assumes "processGraph lines = Inr g"
  shows "\<exists>c. dispatch g = Inr c \<and> unat c = card (cliques3 (edge_set lines)) mod 2 ^ 32"
  using kernel_counts_cliques(1) [OF assms] by (simp add: unat_of_nat take_bit_eq_mod)

theorem counter_wraps_witness:
  "\<exists>c. dispatch \<lparr>adj_offsets = [0, 0, 2, 3, 3], adj_data = [2, 3, 3], nodeCountForAllocation = 4,
          officialNodeCount = 3, officialEdgeCount = 3\<rparr> = Inr c \<and>
       unat c = card (cliques3 (edge_set [''1 2'', ''2 3'', ''1 3''])) mod 2 ^ 32"
  using counter_wraps [OF run_triangle] by simp

text \<open>
  Claim C1, as amended. In every run that returns a graph, taking the three nodes of a
  detection is a bijection between what the kernel counts and the triangles of the
  input graph, and the nodes \<open>u, v, w\<close> of a detection have ascending rank: every
  triangle is found exactly once, at the oriented edge from its lowest-ranked to its
  middle-ranked node. The counter ends as the number of detections in 32-bit arithmetic,
  so the count that is read back is the number of triangles whenever that number is below
  \<open>2^32\<close>.
\<close>

theorem each_triangle_once:
  assumes run: "processGraph lines = Inr g"
  shows "bij_betw triangle_of (detections g) (cliques3 (edge_set lines)) \<and>
         (\<forall>d \<in> detections g.
            rank_less (edge_set lines) (fst (fst d)) (snd (fst d)) \<and>
            rank_less (edge_set lines) (snd (fst d)) (snd d)) \<and>
         dispatch g = Inr (of_nat (card (detections g))) \<and>
         (card (cliques3 (edge_set lines)) < 2 ^ 32 \<longrightarrow>
            triangleCount lines = Inr (card (cliques3 (edge_set lines))))"
proof -
  let ?E = "edge_set lines"
  have b: "bij_betw triangle_of (detections g) (cliques3 ?E)"
    by (rule kernel_counts_cliques(3) [OF run])
  have r: "\<forall>d \<in> detections g. rank_less ?E (fst (fst d)) (snd (fst d)) \<and> rank_less ?E (snd (fst d)) (snd d)"
    unfolding detections_eq [OF run] by (auto simp: chains_def out_nbrs_def)
  have d: "dispatch g = Inr (of_nat (card (detections g)))"
    using kernel_counts_cliques(1,2) [OF run] by simp
  have t: "triangleCount lines = Inr (card (cliques3 ?E))" if "card (cliques3 ?E) < 2 ^ 32"
    using triangleCount_eq [OF run] that by simp
  show ?thesis using b r d t by blast
qed

theorem each_triangle_once_witness:
  "bij_betw triangle_of
     (detections \<lparr>adj_offsets = [0, 0, 2, 3, 3], adj_data = [2, 3, 3], nodeCountForAllocation = 4,
          officialNodeCount = 3, officialEdgeCount = 3\<rparr>)
     (cliques3 (edge_set [''1 2'', ''2 3'', ''1 3''])) \<and>
   card (cliques3 (edge_set [''1 2'', ''2 3'', ''1 3''])) < 2 ^ 32 \<and>
   card (cliques3 (edge_set [''1 2'', ''2 3'', ''1 3''])) = 1"
proof -
  let ?L = "[''1 2'', ''2 3'', ''1 3'']"
  have "card (edge_set ?L) = 3" using card_edge_set [OF run_triangle] by simp
  then have "card (cliques3 (edge_set ?L)) \<le> 2 ^ 6"
    using cliques3_bound [OF finite_edge_set, of ?L] by simp
  then have small: "card (cliques3 (edge_set ?L)) < 2 ^ 32" by simp
  show ?thesis
    using each_triangle_once [OF run_triangle] small run_triangle_count by simp
qed

subsection \<open>When a run returns a graph\<close>

lemma pass2_total:
  "well_formed lines \<Longrightarrow> length (proper (records lines)) \<le> n \<Longrightarrow>
   for_each pass2_line lines (xs @ replicate n 0, length xs) =
     Inr (xs @ map pack_record (proper (records lines))
             @ replicate (n - length (proper (records lines))) 0,
          length xs + length (proper (records lines)))"
proof (induction lines arbitrary: xs n)
  case Nil
  show ?case by (simp add: records_def proper_def map_filter_simps)
next
  case (Cons l ls)
  then have wf: "well_formed ls" and hd: "ignored l \<or> record_of l \<noteq> None"
    by (auto simp: well_formed_Cons)
  show ?case
  proof (cases "ignored l")
    case True
    then show ?thesis
      using Cons.IH [OF wf, of n xs] Cons.prems(2)
      by (simp add: pass2_line_ignored records_Cons)
  next
    case False
    then obtain r where r: "record_of l = Some r" using hd by auto
    show ?thesis
    proof (cases "fst r = snd r")
      case True
      then show ?thesis
        using Cons.IH [OF wf, of n xs] Cons.prems(2) False r
        by (simp add: pass2_line_record [OF False r] records_Cons proper_def)
    next
      case neq: False
      have len: "Suc (length (proper (records ls))) \<le> n"
        using Cons.prems(2) neq False r by (simp add: records_Cons proper_def)
      then obtain m where n: "n = Suc m" by (cases n) auto
      have upd: "(xs @ replicate n 0)[length xs := pack_record r]
                 = (xs @ [pack_record r]) @ replicate m 0"
        by (simp add: n list_update_append)
      have "for_each pass2_line ls ((xs @ [pack_record r]) @ replicate m 0,
               length (xs @ [pack_record r])) =
            Inr ((xs @ [pack_record r]) @ map pack_record (proper (records ls))
                   @ replicate (m - length (proper (records ls))) 0,
                 length (xs @ [pack_record r]) + length (proper (records ls)))"
        using len n by (intro Cons.IH [OF wf]) simp
      then show ?thesis
        using neq False r n by (simp add: pass2_line_record [OF False r] upd records_Cons proper_def)
    qed
  qed
qed

lemma ingest_total:
  assumes wf: "well_formed lines"
  shows "\<exists>ids. ingest lines =
           Inr ((length (records lines), ids, max_id (records lines), length (proper (records lines))),
                dedup (map pack_record (proper (records lines))))"
proof -
  obtain ids where p1: "pass1 lines = Inr (length (records lines), ids, max_id (records lines),
      length (proper (records lines)))"
    using pass1_loop [OF wf, of 0 "[]" 0 0] by (auto simp: pass1_def max_id_def)
  have "for_each pass2_line lines ([] @ replicate (length (proper (records lines))) 0, length ([] :: nat list))
        = Inr ([] @ map pack_record (proper (records lines))
                 @ replicate (length (proper (records lines)) - length (proper (records lines))) 0,
               length ([] :: nat list) + length (proper (records lines)))"
    using wf by (rule pass2_total) simp
  then have p2: "pass2 lines (length (proper (records lines)))
        = Inr (map pack_record (proper (records lines)), length (proper (records lines)))"
    by (simp add: pass2_def)
  show ?thesis using p1 p2 by (simp add: ingest_def)
qed

lemma small_edges:
  assumes small: "max_id (records lines) + 1 \<le> 2 ^ 32 - 1"
  shows "unpack ` set (dedup (map pack_record (proper (records lines)))) = edge_set lines"
    and "inj_on unpack (set (dedup (map pack_record (proper (records lines)))))"
proof -
  let ?P = "proper (records lines)"
  have lt: "fst r < 2 ^ 32 \<and> snd r < 2 ^ 32" if "r \<in> set ?P" for r
  proof -
    from that have "r \<in> set (records lines)" by (simp add: proper_def)
    then show ?thesis using max_id_member [of r "records lines"] small by simp
  qed
  have un: "unpack (pack_record r) = canonical r" if "r \<in> set ?P" for r
    using lt [OF that] by (simp add: unpack_pack_record)
  show "unpack ` set (dedup (map pack_record ?P)) = edge_set lines"
  proof -
    have "unpack ` set (dedup (map pack_record ?P)) = (\<lambda>r. unpack (pack_record r)) ` set ?P"
      by (simp add: dedup_props image_image)
    also have "\<dots> = canonical ` set ?P" using un by (intro image_cong) simp_all
    finally show ?thesis by (simp add: edge_set_def)
  qed
  show "inj_on unpack (set (dedup (map pack_record ?P)))"
  proof (rule inj_onI)
    fix p q
    assume "p \<in> set (dedup (map pack_record ?P))" "q \<in> set (dedup (map pack_record ?P))"
      and eq: "unpack p = unpack q"
    then obtain r s where r: "r \<in> set ?P" "p = pack_record r" and s: "s \<in> set ?P" "q = pack_record s"
      by (auto simp: dedup_props)
    have "canonical r = canonical s" using eq un r s by simp
    then show "p = q" using r s by (simp add: pack_record_canonical)
  qed
qed

lemma oriented_total:
  assumes small: "max_id (records lines) + 1 \<le> 2 ^ 32 - 1"
  shows "oriented (dedup (map pack_record (proper (records lines)))) (max_id (records lines) + 1) =
           Inr (map (out_list (map (\<lambda>p. arc (edge_set lines) (unpack p))
                               (dedup (map pack_record (proper (records lines))))))
                  [0 ..< max_id (records lines) + 1])"
proof -
  let ?E = "edge_set lines" and ?n = "max_id (records lines) + 1"
  let ?es = "dedup (map pack_record (proper (records lines)))"
  have d: "distinct ?es" by (simp add: dedup_props)
  have inj: "inj_on unpack (set ?es)" by (rule small_edges(2) [OF small])
  have E: "unpack ` set ?es = ?E" by (rule small_edges(1) [OF small])
  have b: "fst e < snd e \<and> snd e < ?n" if "e \<in> ?E" for e
    using edge_set_bounds [OF that] by simp
  have ne: "fst e \<noteq> snd e" if "e \<in> ?E" for e using b [OF that] by simp
  have deg: "build_degrees ?es ?n ! i = of_nat (degree ?E i)" if "i < ?n" for i
    using build_degrees_nth [OF that, of ?es] incidences_degree [OF d inj E ne] by simp
  have sm: "degree ?E i < 2 ^ 32" for i
  proof -
    have "degree ?E i \<le> ?n" using finite_edge_set b by (rule degree_le)
    then show ?thesis using small by simp
  qed
  have ids: "high_half p < ?n \<and> low_half p < ?n" if "p \<in> set ?es" for p
  proof -
    have "unpack p \<in> ?E" using that E by blast
    then show ?thesis using b [of "unpack p"] by (simp add: unpack_def)
  qed
  have "build_oriented (build_degrees ?es ?n) ?es ?n =
      Inr (map (out_list (map (\<lambda>p. arc ?E (unpack p)) ?es)) [0 ..< ?n])"
    using length_build_degrees deg sm ids by (rule build_oriented_eq)
  then show ?thesis using small by (simp add: oriented_def)
qed

lemma csr_total:
  "k \<le> length rows \<Longrightarrow> length (concat (map sort rows)) \<le> 2 ^ 32 - 1 \<Longrightarrow>
   \<exists>offs. for_each (csr_row rows) [0 ..< k] (offs0, [], 0) =
     Inr (offs, concat (take k (map sort rows)), length (concat (take k (map sort rows))))"
proof (induction k)
  case 0
  show ?case by simp
next
  case (Suc k)
  let ?R = "map sort rows"
  obtain offs where pre: "for_each (csr_row rows) [0 ..< k] (offs0, [], 0) =
     Inr (offs, concat (take k ?R), length (concat (take k ?R)))"
    using Suc by auto
  have kl: "k < length ?R" using Suc.prems(1) by simp
  have t: "take (Suc k) ?R = take k ?R @ [sort (rows ! k)]"
    using kl by (simp add: take_Suc_conv_app_nth)
  have "starts ?R (Suc k) \<le> length (concat ?R)" by (rule starts_le_total)
  then have fits: "length (concat (take k ?R)) + length (sort (rows ! k)) \<le> 2 ^ 32 - 1"
    using Suc.prems(2) t by (simp add: starts_def)
  have "csr_row rows (offs, concat (take k ?R), length (concat (take k ?R))) k =
        Inr (offs[k := of_nat (length (concat (take k ?R)))],
             concat (take (Suc k) ?R), length (concat (take (Suc k) ?R)))"
    using fits by (simp add: csr_row_def Let_def push_all_eq t)
  then show ?case using pre by (simp add: for_each_append)
qed

lemma total_out_degree_spec:
  "(\<Sum>u = 0 ..< max_id (records lines) + 1. card (out_nbrs (edge_set lines) u))
     = card (edge_set lines)"
proof -
  let ?E = "edge_set lines" and ?n = "max_id (records lines) + 1"
  have ne: "fst e \<noteq> snd e" if "e \<in> ?E" for e using edge_set_bounds(1) [OF that] by simp
  have bound: "u < ?n" if "v \<in> out_nbrs ?E u" for u v
  proof -
    from that obtain e where e: "e \<in> ?E" "e = (u, v) \<or> e = (v, u)"
      by (auto simp: out_nbrs_def adjacent_def)
    show ?thesis using edge_set_bounds [OF e(1)] e(2) by auto
  qed
  have "(SIGMA u : {0 ..< ?n}. out_nbrs ?E u) = arc ?E ` ?E"
  proof (rule set_eqI)
    fix a :: "nat \<times> nat"
    obtain u v where a: "a = (u, v)" by (cases a)
    show "a \<in> (SIGMA u : {0 ..< ?n}. out_nbrs ?E u) \<longleftrightarrow> a \<in> arc ?E ` ?E"
      using arc_image_iff [of ?E u v] ne bound [of v u] by (auto simp: a out_nbrs_def)
  qed
  then have "card (arc ?E ` ?E) = card (SIGMA u : {0 ..< ?n}. out_nbrs ?E u)"
    by (simp only:)
  also have "\<dots> = (\<Sum>u = 0 ..< ?n. card (out_nbrs ?E u))"
    using finite_out_nbrs [OF finite_edge_set, of lines] by simp
  finally have "card (arc ?E ` ?E) = (\<Sum>u = 0 ..< ?n. card (out_nbrs ?E u))" .
  moreover have "card (arc ?E ` ?E) = card ?E"
    by (rule card_image) (rule arc_inj, rule edge_set_bounds(1))
  ultimately show ?thesis by simp
qed

lemma processGraph_total:
  assumes wf: "well_formed lines"
    and small: "max_id (records lines) + 1 \<le> 2 ^ 32 - 1"
    and few: "card (edge_set lines) \<le> 2 ^ 32 - 1"
  shows "\<exists>g. processGraph lines = Inr g"
proof -
  let ?E = "edge_set lines"
  define n where "n = max_id (records lines) + 1"
  define es where "es = dedup (map pack_record (proper (records lines)))"
  define rows where "rows = map (out_list (map (\<lambda>p. arc ?E (unpack p)) es)) [0 ..< n]"
  obtain ids where ing: "ingest lines =
      Inr ((length (records lines), ids, max_id (records lines), length (proper (records lines))), es)"
    using ingest_total [OF wf] unfolding es_def by blast
  have ori: "oriented es (Suc (max_id (records lines))) = Inr rows"
    using oriented_total [OF small] by (simp add: rows_def es_def n_def)
  have lt: "fst e < snd e" if "e \<in> ?E" for e using edge_set_bounds(1) [OF that] .
  have "map sort rows = spec_rows ?E n"
    unfolding spec_rows_def rows_def es_def
    using sort_out_list [OF _ small_edges(2) [OF small] small_edges(1) [OF small] lt]
    by (simp add: dedup_props)
  then have "length (concat (map sort rows)) = card ?E"
    using length_concat_spec_rows [OF finite_edge_set, of lines n] total_out_degree_spec [of lines]
    by (simp add: n_def)
  then have fits: "length (concat (map sort rows)) \<le> 2 ^ 32 - 1" using few by simp
  have len: "n \<le> length rows" by (simp add: rows_def)
  obtain offs where "for_each (csr_row rows) [0 ..< n] (replicate (n + 1) 0, [], 0) =
     Inr (offs, concat (take n (map sort rows)), length (concat (take n (map sort rows))))"
    using csr_total [OF len fits] by blast
  then obtain offsets flat where "build_csr rows n = Inr (offsets, flat)"
    by (simp add: build_csr_def)
  then have csr: "build_csr rows (Suc (max_id (records lines))) = Inr (offsets, flat)"
    by (simp add: n_def)
  show ?thesis
    by (simp add: processGraph_def ing build_graph_def Let_def ori csr)
qed

subsection \<open>Decimal numerals are parsed back\<close>

lemmas dec_unfold = dec.simps

declare dec.simps [simp del]

lemma digit_char:
  fixes d :: nat
  assumes "d < 10"
  shows "(of_char (char_of (48 + d) :: char) :: nat) = 48 + d"
  using assms by simp

lemma digit_props:
  fixes d :: nat
  assumes "d < 10"
  shows "isDigit (char_of (48 + d))" and "\<not> isWhiteSpace (char_of (48 + d))"
    and "char_of (48 + d) \<noteq> CHR ''#''"
proof -
  have v: "(of_char (char_of (48 + d) :: char) :: nat) = 48 + d" using assms by (rule digit_char)
  show "isDigit (char_of (48 + d))" using assms by (simp add: isDigit_def v del: of_char_of)
  show "\<not> isWhiteSpace (char_of (48 + d))" by (simp add: isWhiteSpace_def v del: of_char_of)
  show "char_of (48 + d) \<noteq> CHR ''#''"
  proof
    assume "char_of (48 + d) = CHR ''#''"
    then have "(of_char (char_of (48 + d) :: char) :: nat) = of_char CHR ''#''" by simp
    then show False by (simp add: v del: of_char_of)
  qed
qed

lemma dec_chars:
  "dec n \<noteq> [] \<and> list_all isDigit (dec n) \<and> list_all (\<lambda>c. \<not> isWhiteSpace c) (dec n)
   \<and> hd (dec n) \<noteq> CHR ''#''"
proof (induction n rule: dec.induct)
  case (1 n)
  show ?case
  proof (cases "n < 10")
    case True
    then show ?thesis using digit_props [of n] by (subst (1 2 3 4) dec_unfold) simp
  next
    case False
    have m: "n mod 10 < 10" by simp
    show ?thesis
      using "1.IH" [OF False] False digit_props [OF m]
      by (subst (1 2 3 4) dec_unfold) simp
  qed
qed

lemma decimalValue_snoc:
  "decimalValue (xs @ [c]) = 10 * decimalValue xs + (of_char c - 48)"
  by (simp add: decimalValue_def)

lemma decimalValue_dec: "decimalValue (dec n) = n"
proof (induction n rule: dec.induct)
  case (1 n)
  show ?case
  proof (cases "n < 10")
    case True
    then show ?thesis using digit_char [of n]
      by (subst dec_unfold) (simp add: decimalValue_def del: of_char_of)
  next
    case False
    have m: "n mod 10 < 10" by simp
    show ?thesis
      using "1.IH" [OF False] False digit_char [OF m]
      by (subst dec_unfold) (simp add: decimalValue_snoc del: of_char_of)
  qed
qed

lemma Number_dec: "n < 2 ^ 53 \<Longrightarrow> Number (dec n) = Inr (Num n)"
  using dec_chars [of n] by (simp add: Number_def decimalValue_dec)

lemma split_from_token:
  "ds \<noteq> [] \<Longrightarrow> list_all (\<lambda>c. \<not> isWhiteSpace c) ds \<Longrightarrow>
   split_from cur insep (ds @ rest) = split_from (cur @ ds) False rest"
proof (induction ds arbitrary: cur insep)
  case Nil
  then show ?case by simp
next
  case (Cons c ds)
  show ?case
  proof (cases "ds = []")
    case True
    then show ?thesis using Cons.prems by simp
  next
    case False
    then show ?thesis using Cons.IH [OF False, of "cur @ [c]" False] Cons.prems by simp
  qed
qed

lemma trim_token:
  "s \<noteq> [] \<Longrightarrow> \<not> isWhiteSpace (hd s) \<Longrightarrow> \<not> isWhiteSpace (last s) \<Longrightarrow> trim s = s"
proof -
  assume s: "s \<noteq> []" "\<not> isWhiteSpace (hd s)" "\<not> isWhiteSpace (last s)"
  have a: "dropWhile isWhiteSpace s = s" using s(1,2) by (cases s) simp_all
  have "rev s \<noteq> []" "\<not> isWhiteSpace (hd (rev s))" using s(1,3) by (simp_all add: hd_rev)
  then have "dropWhile isWhiteSpace (rev s) = rev s" by (cases "rev s") simp_all
  then show ?thesis by (simp add: trim_def a)
qed

lemma space_is_white: "isWhiteSpace CHR '' ''"
  by (simp add: isWhiteSpace_def)

lemma parse_edge_line:
  assumes "fst r < 2 ^ 53" and "snd r < 2 ^ 53"
  shows "parse_line (edge_line r) = Inr (Num (fst r), Num (snd r))"
proof -
  let ?a = "dec (fst r)" and ?b = "dec (snd r)"
  have a: "?a \<noteq> []" "list_all (\<lambda>c. \<not> isWhiteSpace c) ?a" using dec_chars by blast+
  have b: "?b \<noteq> []" "list_all (\<lambda>c. \<not> isWhiteSpace c) ?b" using dec_chars by blast+
  have h: "\<not> isWhiteSpace (hd (edge_line r))"
    using a by (cases ?a) (simp_all add: edge_line_def)
  have l: "\<not> isWhiteSpace (last (edge_line r))"
    using b by (simp add: edge_line_def list_all_iff)
  have "trim (edge_line r) = edge_line r"
    using h l a by (intro trim_token) (simp_all add: edge_line_def)
  moreover have "split_ws (edge_line r) = [?a, ?b]"
  proof -
    have "split_from [] False (?a @ CHR '' '' # ?b) = split_from ([] @ ?a) False (CHR '' '' # ?b)"
      using a by (rule split_from_token)
    also have "\<dots> = ?a # split_from [] True (?b @ [])" by (simp add: space_is_white)
    also have "split_from [] True (?b @ []) = split_from ([] @ ?b) False []"
      using b by (rule split_from_token)
    finally show ?thesis by (simp add: split_ws_def edge_line_def)
  qed
  ultimately show ?thesis
    using assms by (simp add: parse_line_def element_def Number_dec)
qed

lemma edge_line_kept: "\<not> ignored (edge_line r)"
proof -
  obtain c cs where d: "dec (fst r) = c # cs" using dec_chars [of "fst r"] by (cases "dec (fst r)") auto
  have "c \<noteq> CHR ''#''" using dec_chars [of "fst r"] d by simp
  then show ?thesis by (simp add: ignored_def startsWith_def edge_line_def d)
qed

lemma records_edge_lines:
  "(\<And>r. r \<in> set ps \<Longrightarrow> fst r < 2 ^ 53 \<and> snd r < 2 ^ 53) \<Longrightarrow>
   records (map edge_line ps) = ps \<and> well_formed (map edge_line ps)"
proof (induction ps)
  case Nil
  show ?case by (simp add: records_def well_formed_def map_filter_simps)
next
  case (Cons p ps)
  have "record_of (edge_line p) = Some p"
    using parse_edge_line [of p] Cons.prems [of p] by (cases p) (simp add: record_of_Some)
  then show ?case
    using Cons edge_line_kept [of p] by (simp add: records_Cons well_formed_Cons)
qed

subsection \<open>A complete graph with more than \<open>2^32\<close> triangles\<close>

lemma set_all_pairs: "set (all_pairs n) = {(i, j). i < j \<and> j < n}"
proof (rule set_eqI)
  fix r :: "nat \<times> nat"
  obtain i j where r: "r = (i, j)" by (cases r)
  have "r \<in> set (all_pairs n) \<longleftrightarrow> i < n \<and> Suc i \<le> j \<and> j < n"
  proof
    assume "r \<in> set (all_pairs n)"
    then show "i < n \<and> Suc i \<le> j \<and> j < n" by (auto simp: all_pairs_def r)
  next
    assume a: "i < n \<and> Suc i \<le> j \<and> j < n"
    then have "i \<in> {0 ..< n}" and "(i, j) \<in> Pair i ` {Suc i ..< n}" by auto
    then show "r \<in> set (all_pairs n)" unfolding all_pairs_def r by (simp add: image_iff)
  qed
  then show "r \<in> set (all_pairs n) \<longleftrightarrow> r \<in> {(i, j). i < j \<and> j < n}"
    by (auto simp: r)
qed

lemma max_id_le:
  "(\<And>r. r \<in> set recs \<Longrightarrow> fst r \<le> m \<and> snd r \<le> m) \<Longrightarrow> max_id recs \<le> m"
proof -
  assume b: "\<And>r. r \<in> set recs \<Longrightarrow> fst r \<le> m \<and> snd r \<le> m"
  have "k \<le> m \<Longrightarrow> (\<And>r. r \<in> set rs \<Longrightarrow> fst r \<le> m \<and> snd r \<le> m) \<Longrightarrow>
        fold (\<lambda>r m. max m (max (fst r) (snd r))) rs k \<le> m" for rs :: "(nat \<times> nat) list" and k
    by (induction rs arbitrary: k) simp_all
  then show ?thesis using b by (simp add: max_id_def)
qed

lemma complete_graph_records:
  assumes "n \<le> 2 ^ 53"
  shows "records (complete_graph n) = all_pairs n" and "well_formed (complete_graph n)"
proof -
  have "fst r < 2 ^ 53 \<and> snd r < 2 ^ 53" if "r \<in> set (all_pairs n)" for r
    using that assms by (auto simp: set_all_pairs)
  then have "records (map edge_line (all_pairs n)) = all_pairs n \<and>
             well_formed (map edge_line (all_pairs n))"
    by (rule records_edge_lines)
  then show "records (complete_graph n) = all_pairs n" and "well_formed (complete_graph n)"
    by (simp_all add: complete_graph_def)
qed

lemma complete_graph_edges:
  assumes "n \<le> 2 ^ 53"
  shows "edge_set (complete_graph n) = {(i, j). i < j \<and> j < n}"
proof -
  have p: "proper (all_pairs n) = all_pairs n"
    unfolding proper_def by (rule filter_True) (auto simp: set_all_pairs)
  have "canonical ` set (all_pairs n) = set (all_pairs n)"
  proof -
    have "canonical r = r" if "r \<in> set (all_pairs n)" for r
    proof -
      have "fst r < snd r" using that by (auto simp: set_all_pairs)
      then show ?thesis by (simp add: canonical_def)
    qed
    then show ?thesis by simp
  qed
  then show ?thesis
    by (simp add: edge_set_def complete_graph_records(1) [OF assms] p set_all_pairs)
qed

lemma complete_graph_cliques:
  assumes "n \<le> 2 ^ 53"
  shows "cliques3 (edge_set (complete_graph n)) = {T. T \<subseteq> {0 ..< n} \<and> card T = 3}"
proof -
  let ?E = "edge_set (complete_graph n)"
  have adj: "adjacent ?E u v \<longleftrightarrow> u \<noteq> v \<and> u < n \<and> v < n" for u v
    by (auto simp: adjacent_def complete_graph_edges [OF assms])
  show ?thesis
  proof (intro set_eqI iffI)
    fix T assume "T \<in> cliques3 ?E"
    then have c3: "card T = 3" and a: "\<And>x y. x \<in> T \<Longrightarrow> y \<in> T \<Longrightarrow> x \<noteq> y \<Longrightarrow> adjacent ?E x y"
      by (auto simp: cliques3_def)
    have "x < n" if x: "x \<in> T" for x
    proof -
      have "\<exists>y \<in> T. y \<noteq> x"
      proof (rule ccontr)
        assume "\<not> (\<exists>y \<in> T. y \<noteq> x)"
        then have "T = {x}" using x by blast
        then show False using c3 by simp
      qed
      then obtain y where "y \<in> T" "y \<noteq> x" by blast
      then have "adjacent ?E x y" using a [OF x] by blast
      then show ?thesis by (simp add: adj)
    qed
    then show "T \<in> {T. T \<subseteq> {0 ..< n} \<and> card T = 3}" using c3 by auto
  next
    fix T assume "T \<in> {T. T \<subseteq> {0 ..< n} \<and> card T = 3}"
    then have "T \<subseteq> {0 ..< n}" "card T = 3" by simp_all
    then show "T \<in> cliques3 ?E" by (auto simp: cliques3_def adj)
  qed
qed

lemma complete_graph_triangles:
  assumes "n \<le> 2 ^ 53"
  shows "card (cliques3 (edge_set (complete_graph n))) = n choose 3"
  using n_subsets [of "{0 ..< n}" 3] by (simp add: complete_graph_cliques [OF assms])

lemma complete_graph_runs:
  assumes "0 < n" and "n \<le> 65535"
  shows "\<exists>g. processGraph (complete_graph n) = Inr g"
proof -
  have n53: "n \<le> 2 ^ 53" using assms(2) by simp
  have "max_id (all_pairs n) \<le> n - 1"
    by (rule max_id_le) (auto simp: set_all_pairs)
  then have small: "max_id (records (complete_graph n)) + 1 \<le> 2 ^ 32 - 1"
    using assms by (simp add: complete_graph_records(1) [OF n53])
  have "edge_set (complete_graph n) \<subseteq> {0 ..< n} \<times> {0 ..< n}"
    by (auto simp: complete_graph_edges [OF n53])
  then have "card (edge_set (complete_graph n)) \<le> card ({0 ..< n} \<times> {0 ..< n})"
    by (intro card_mono) simp_all
  also have "\<dots> = n * n" by simp
  also have "\<dots> \<le> 65535 * 65535" using assms(2) by (intro mult_mono) simp_all
  finally have few: "card (edge_set (complete_graph n)) \<le> 2 ^ 32 - 1" by simp
  show ?thesis
    using complete_graph_records(2) [OF n53] small few by (rule processGraph_total)
qed

lemma choose_2955: "(2955 :: nat) choose 3 = 4296157285"
  by code_simp

text \<open>
  Claim C1 as stated fails once the graph has \<open>2^32\<close> triangles or more. The complete
  graph on 2955 nodes (4364535 input lines) has 4296157285 triangles; the run returns a
  graph, and the count read back is 1189989, the residue modulo \<open>2^32\<close>.
\<close>

theorem complete_graph_overflow:
  "triangleCount (complete_graph 2955) = Inr 1189989 \<and>
   card (cliques3 (edge_set (complete_graph 2955))) = 4296157285"
proof -
  obtain g where run: "processGraph (complete_graph 2955) = Inr g"
    using complete_graph_runs [of 2955] by auto
  have c: "card (cliques3 (edge_set (complete_graph 2955))) = 4296157285"
    using complete_graph_triangles [of 2955] choose_2955 by simp
  have "triangleCount (complete_graph 2955) = Inr (4296157285 mod 2 ^ 32)"
    using triangleCount_eq [OF run] by (simp only: c)
  then show ?thesis using c by simp
qed

lemma fitting_edges:
  assumes fit: "max_id (records lines) < 2 ^ 32"
  shows "unpack ` set (dedup (map pack_record (proper (records lines)))) = edge_set lines"
    and "inj_on unpack (set (dedup (map pack_record (proper (records lines)))))"
proof -
  let ?P = "proper (records lines)"
  have lt: "fst r < 2 ^ 32 \<and> snd r < 2 ^ 32" if "r \<in> set ?P" for r
  proof -
    from that have "r \<in> set (records lines)" by (simp add: proper_def)
    then show ?thesis using max_id_member [of r "records lines"] fit by simp
  qed
  have un: "unpack (pack_record r) = canonical r" if "r \<in> set ?P" for r
    using lt [OF that] by (simp add: unpack_pack_record)
  show "unpack ` set (dedup (map pack_record ?P)) = edge_set lines"
  proof -
    have "unpack ` set (dedup (map pack_record ?P)) = (\<lambda>r. unpack (pack_record r)) ` set ?P"
      by (simp add: dedup_props image_image)
    also have "\<dots> = canonical ` set ?P" using un by (intro image_cong) simp_all
    finally show ?thesis by (simp add: edge_set_def)
  qed
  show "inj_on unpack (set (dedup (map pack_record ?P)))"
  proof (rule inj_onI)
    fix p q
    assume "p \<in> set (dedup (map pack_record ?P))" "q \<in> set (dedup (map pack_record ?P))"
      and eq: "unpack p = unpack q"
    then obtain r s where r: "r \<in> set ?P" "p = pack_record r" and s: "s \<in> set ?P" "q = pack_record s"
      by (auto simp: dedup_props)
    have "canonical r = canonical s" using eq un r s by simp
    then show "p = q" using r s by (simp add: pack_record_canonical)
  qed
qed

lemma ingest_example:
  "ingest [''3 5'', ''5 3'', ''4 4'', ''3 5''] =
     Inr ((4, [Num 4, Num 5, Num 3], 5, 3), [12884901893])"
  by code_simp

text \<open>
  Claim C3, as amended. Whenever ingestion completes and the largest identifier it has
  seen (\<open>maxNodeId\<close>) is below \<open>2^32\<close>, as it is in every run that returns a graph, the
  edges held by \<open>uniquePackedEdges\<close> are pairwise different, each has its smaller
  endpoint first (so none is a self-loop and no unordered pair occurs twice), and they
  are exactly the canonical forms \<open>(min, max)\<close> of the input records that are not
  self-loops: \<open>3 5\<close> and \<open>5 3\<close> give the same edge.
\<close>

theorem ingested_edges_canonical:
  assumes "ingest lines =
             Inr ((edgeCount, uniqueNodeIds, maxNodeId, validEdgeCount), uniquePackedEdges)"
    and "maxNodeId < 2 ^ 32"
  shows "distinct (map unpack uniquePackedEdges) \<and>
         list_all (\<lambda>e. fst e < snd e) (map unpack uniquePackedEdges) \<and>
         set (map unpack uniquePackedEdges) = edge_set lines"
proof -
  let ?es = "dedup (map pack_record (proper (records lines)))"
  have es: "uniquePackedEdges = ?es" by (rule ingest_success(3) [OF assms(1)])
  have "maxNodeId = max_id (records lines)" using ingest_success(2) [OF assms(1)] by simp
  then have fit: "max_id (records lines) < 2 ^ 32" using assms(2) by simp
  have d: "distinct (map unpack ?es)"
    using fitting_edges(2) [OF fit] by (simp add: distinct_map dedup_props)
  have s: "set (map unpack ?es) = edge_set lines" using fitting_edges(1) [OF fit] by simp
  have "fst e < snd e" if "e \<in> edge_set lines" for e
    using that by (rule edge_set_bounds(1))
  then have "list_all (\<lambda>e. fst e < snd e) (map unpack ?es)"
    unfolding list_all_iff s by blast
  with d s show ?thesis by (simp only: es)
qed

theorem ingested_edges_canonical_witness:
  "(5 :: nat) < 2 ^ 32 \<and>
   ingest [''3 5'', ''5 3'', ''4 4'', ''3 5''] =
     Inr ((4, [Num 4, Num 5, Num 3], 5, 3), [12884901893]) \<and>
   distinct (map unpack [12884901893]) \<and>
   list_all (\<lambda>e. fst e < snd e) (map unpack [12884901893]) \<and>
   set (map unpack [12884901893]) = edge_set [''3 5'', ''5 3'', ''4 4'', ''3 5'']"
proof -
  have fit: "(5 :: nat) < 2 ^ 32" by simp
  show ?thesis
    using ingested_edges_canonical [OF ingest_example fit] ingest_example fit by blast
qed

text \<open>
  Claim C3 as stated fails for an input with an identifier of \<open>2^32\<close> or more, on which
  ingestion still completes. For the record \<open>0 4294967297\<close> the canonical edge set holds
  one packed edge, which reads back as the self-loop \<open>(1, 1)\<close>; for the records \<open>0 1\<close> and
  \<open>0 4294967296\<close> it holds two packed edges, which read back as \<open>(0, 1)\<close> and \<open>(1, 0)\<close>,
  the same unordered pair twice.
\<close>

theorem ingest_large_id_counterexample:
  "ingest [''0 4294967297''] =
     Inr ((1, [Num 4294967297, Num 0], 4294967297, 1), [4294967297]) \<and>
   unpack 4294967297 = (1, 1) \<and>
   ingest [''0 1'', ''0 4294967296''] =
     Inr ((2, [Num 4294967296, Num 1, Num 0], 4294967296, 2), [1, 4294967296]) \<and>
   unpack 1 = (0, 1) \<and> unpack 4294967296 = (1, 0)"
  by code_simp

end
